theory Spec2Isabelle
  imports Complex_Main "HOL-Library.Word"
begin

unbundle bit_operations_syntax

section \<open>Data model\<close>

text \<open>
  The package reads DHT22 / AM2302 / DHT11 sensors over one GPIO pin.  Go's
  \<^verbatim>\<open>int\<close> values are modelled as \<^typ>\<open>int\<close>: every integer the code
  computes from a frame of 0/1 bits stays below \<open>2 ^ 16\<close> in absolute value, so no
  machine width is ever reached.  The \<^verbatim>\<open>uint8\<close> check sum accumulators are
  8-bit words, whose addition and shift wrap as Go's do.  A \<^verbatim>\<open>time.Duration\<close>
  and a point of the monotonic clock are integers counting nanoseconds.  A
  \<^verbatim>\<open>float64\<close> result is modelled by the real number that the same
  arithmetic gives without rounding.
\<close>

type_synonym duration = int
type_synonym time = int
type_synonym float64 = real

definition Microsecond :: duration where
  "Microsecond = 1000"

definition Millisecond :: duration where
  "Millisecond = 1000000"

definition Second :: duration where
  "Second = 1000000000"

datatype level = Low | High

datatype TemperatureUnit = Celsius | Fahrenheit

text \<open>
  The \<^verbatim>\<open>DHT\<close> struct of globals.go.  Its \<^verbatim>\<open>pin\<close> field is the
  hardware; what the pin does is part of the world below, not of the handle.
\<close>

record DHT =
  temperatureUnit :: TemperatureUnit
  sensorType :: string
  numErrors :: int
  lastRead :: time

text \<open>
  Every \<^verbatim>\<open>fmt.Errorf\<close> of the package is one constructor, carrying the value
  that the message prints.
\<close>

datatype error =
    PinOutLowError string
  | PinInError string
  | PinOutHighError string
  | MissingLowLevel
  | LevelNotHigh
  | HighTooLong duration
  | LevelNotLow
  | LowTooLong duration
  | LowTooShort duration
  | BadHumidity int
  | BadTemperature int
  | CheckSumFail

text \<open>
  A Go function either returns or panics.  The panics that the modelled code can
  raise are indexing a slice outside its bounds and closing a closed channel.
\<close>

datatype 'a outcome = Done 'a | Panic

definition sliceAt :: "'a list \<Rightarrow> int \<Rightarrow> 'a option" where
  "sliceAt xs i = (if 0 \<le> i \<and> i < int (length xs) then Some (xs ! nat i) else None)"

section \<open>bitsToValues\<close>

text \<open>
  The two loops over bits 0..15 and 16..31 have the same body; \<open>a\<close> and \<open>b\<close>
  are the two indices at which the byte in \<open>sum8\<close> is added to \<open>sumTotal\<close>
  (7 and 15, then 23 and 31).
\<close>

function fieldLoop :: "int list \<Rightarrow> int \<Rightarrow> int \<Rightarrow> int \<Rightarrow> int \<Rightarrow> int \<times> 8 word \<times> 8 word
    \<Rightarrow> (int \<times> 8 word \<times> 8 word) outcome" where
  "fieldLoop bits i stop a b (v, sum8, sumTotal) =
     (if i < stop then
        (case sliceAt bits i of
           None \<Rightarrow> Panic
         | Some x \<Rightarrow>
             (let v' = push_bit 1 v + x;
                  sum8' = push_bit 1 sum8 + word_of_int x
              in if i = a \<or> i = b
                 then fieldLoop bits (i + 1) stop a b (v', 0, sumTotal + sum8')
                 else fieldLoop bits (i + 1) stop a b (v', sum8', sumTotal)))
      else Done (v, sum8, sumTotal))"
  by pat_completeness auto
termination
  by (relation "measure (\<lambda>(bits, i, stop, a, b, acc). nat (stop - i))") auto

function checkSumLoop :: "int list \<Rightarrow> int \<Rightarrow> 8 word \<Rightarrow> 8 word outcome" where
  "checkSumLoop bits i checkSum =
     (if i < 40 then
        (case sliceAt bits i of
           None \<Rightarrow> Panic
         | Some x \<Rightarrow> checkSumLoop bits (i + 1) (push_bit 1 checkSum + word_of_int x))
      else Done checkSum)"
  by pat_completeness auto
termination
  by (relation "measure (\<lambda>(bits, i, checkSum). nat (40 - i))") auto

text \<open>
  Lines 54 to 93 of bitsToValues: the humidity integer, the temperature integer
  after the treatment of its bit 15, the wrapped sum of the four data bytes and the
  transmitted check sum.
\<close>

definition signExtend :: "int \<Rightarrow> int" where
  "signExtend temperatureInt =
     (if (temperatureInt AND 0x8000) > 0 then temperatureInt OR (NOT 0xffff)
      else temperatureInt)"

definition parseBits :: "int list \<Rightarrow> (int \<times> int \<times> 8 word \<times> 8 word) outcome" where
  "parseBits bits =
     (case fieldLoop bits 0 16 7 15 (0, 0, 0) of
        Panic \<Rightarrow> Panic
      | Done (humidityInt, sum8, sumTotal) \<Rightarrow>
          (case fieldLoop bits 16 32 23 31 (0, sum8, sumTotal) of
             Panic \<Rightarrow> Panic
           | Done (temperatureInt, sum8', sumTotal') \<Rightarrow>
               (case checkSumLoop bits 32 0 of
                  Panic \<Rightarrow> Panic
                | Done checkSum \<Rightarrow>
                    Done (humidityInt, signExtend temperatureInt, sumTotal', checkSum))))"

text \<open>
  Lines 95 to 143: range checks, check sum and scaling.  A range fault returns at
  once with both values still zero; a check sum fault only sets \<open>err\<close>, and the
  values are computed and returned with it.
\<close>

definition checkValues :: "DHT \<Rightarrow> int \<times> int \<times> 8 word \<times> 8 word
    \<Rightarrow> float64 \<times> float64 \<times> error option" where
  "checkValues dht f =
     (case f of (humidityInt, temperatureInt, sumTotal, checkSum) \<Rightarrow>
        if sensorType dht \<noteq> ''dht11'' then
          (if humidityInt < 0 \<or> humidityInt > 1000 then (0, 0, Some (BadHumidity humidityInt))
           else if temperatureInt < - 400 \<or> temperatureInt > 800
             then (0, 0, Some (BadTemperature temperatureInt))
           else (real_of_int humidityInt / 10,
                 (if temperatureUnit dht = Celsius then real_of_int temperatureInt / 10
                  else real_of_int temperatureInt * 9 / 50 + 32),
                 (if checkSum \<noteq> sumTotal then Some CheckSumFail else None)))
        else
          (if humidityInt < 0 \<or> humidityInt > 100 then (0, 0, Some (BadHumidity humidityInt))
           else if temperatureInt < 0 \<or> temperatureInt > 50
             then (0, 0, Some (BadTemperature temperatureInt))
           else (real_of_int humidityInt,
                 (if temperatureUnit dht = Celsius then real_of_int temperatureInt
                  else real_of_int temperatureInt * 9 / 5 + 32),
                 (if checkSum \<noteq> sumTotal then Some CheckSumFail else None))))"

definition bitsToValues :: "DHT \<Rightarrow> int list \<Rightarrow> (float64 \<times> float64 \<times> error option) outcome" where
  "bitsToValues dht bits =
     (case parseBits bits of Panic \<Rightarrow> Panic | Done f \<Rightarrow> Done (checkValues dht f))"

section \<open>readBits: decoding the captured pulses\<close>

text \<open>
  Lines 101 to 151 of readBits work on the two slices \<open>levels\<close> and
  \<open>durations\<close> that the busy read filled.  The backward search for the last low
  level starts at \<open>len(levels) - 1\<close> and gives up only after it has looked at an
  index below 80.
\<close>

function findLastLow :: "level list \<Rightarrow> int \<Rightarrow> (error + int) outcome" where
  "findLastLow levels i =
     (case sliceAt levels i of
        None \<Rightarrow> Panic
      | Some l \<Rightarrow>
          if l = Low then Done (Inr i)
          else if i < 80 then Done (Inl MissingLowLevel)
          else findLastLow levels (i - 1))"
  by pat_completeness auto
termination
  by (relation "measure (\<lambda>(levels, i). nat i)") auto

function highLoop :: "level list \<Rightarrow> duration list \<Rightarrow> int \<Rightarrow> int \<Rightarrow> int list \<Rightarrow> int
    \<Rightarrow> (error + int list) outcome" where
  "highLoop levels durations i endNumber bits index =
     (if i < endNumber then
        (case sliceAt levels i of
           None \<Rightarrow> Panic
         | Some l \<Rightarrow>
             if l \<noteq> High then Done (Inl LevelNotHigh)
             else
               (case sliceAt durations i of
                  None \<Rightarrow> Panic
                | Some d \<Rightarrow>
                    if d > 90 * Microsecond then Done (Inl (HighTooLong d))
                    else if d > 30 * Microsecond then
                      (if 0 \<le> index \<and> index < int (length bits)
                       then highLoop levels durations (i + 2) endNumber
                              (bits[nat index := 1]) (index + 1)
                       else Panic)
                    else highLoop levels durations (i + 2) endNumber bits (index + 1)))
      else Done (Inr bits))"
  by pat_completeness auto
termination
  by (relation "measure (\<lambda>(levels, durations, i, endNumber, bits, index). nat (endNumber - i))")
    auto

function lowLoop :: "level list \<Rightarrow> duration list \<Rightarrow> int \<Rightarrow> int \<Rightarrow> error option outcome" where
  "lowLoop levels durations i stop =
     (if i < stop then
        (case sliceAt levels i of
           None \<Rightarrow> Panic
         | Some l \<Rightarrow>
             if l \<noteq> Low then Done (Some LevelNotLow)
             else
               (case sliceAt durations i of
                  None \<Rightarrow> Panic
                | Some d \<Rightarrow>
                    if d > 70 * Microsecond then Done (Some (LowTooLong d))
                    else if d < 35 * Microsecond then Done (Some (LowTooShort d))
                    else lowLoop levels durations (i + 2) stop))
      else Done None)"
  by pat_completeness auto
termination
  by (relation "measure (\<lambda>(levels, durations, i, stop). nat (stop - i))") auto

definition decodePulses :: "level list \<Rightarrow> duration list \<Rightarrow> (error + int list) outcome" where
  "decodePulses levels durations =
     (case findLastLow levels (int (length levels) - 1) of
        Panic \<Rightarrow> Panic
      | Done (Inl e) \<Rightarrow> Done (Inl e)
      | Done (Inr endNumber) \<Rightarrow>
          (let startNumber = endNumber - 79 in
           case highLoop levels durations startNumber endNumber (replicate 40 0) 0 of
             Panic \<Rightarrow> Panic
           | Done (Inl e) \<Rightarrow> Done (Inl e)
           | Done (Inr bits) \<Rightarrow>
               (case lowLoop levels durations (startNumber + 1) (endNumber + 1) of
                  Panic \<Rightarrow> Panic
                | Done (Some e) \<Rightarrow> Done (Inl e)
                | Done None \<Rightarrow> Done (Inr bits))))"

section \<open>The pin, the clock and the capture\<close>

text \<open>
  What the pin does during one call of readBits is given from outside: the error
  (if any) of each of the three pin configuration calls, the level of the first
  \<^verbatim>\<open>pin.Read()\<close>, and for each of the 84 rounds of the busy read the time
  after which its inner loop ended (the value of \<^verbatim>\<open>time.Since(startTime)\<close>)
  together with the level read last.
\<close>

record attempt =
  outLowErr :: "string option"
  inErr :: "string option"
  firstLevel :: level
  pulse :: "nat \<Rightarrow> duration \<times> level"
  outHighErr :: "string option"

text \<open>The effects of the package that its callers or the hardware can observe.\<close>

datatype event =
    SetLastRead time
  | PinOut level
  | PinIn
  | Sleep duration
  | Publish float64 float64
  | CloseStopped

text \<open>
  The world holds the clock, the behaviour of the sensor in each capture attempt
  (\<open>sensor w n\<close> for the attempt number \<open>n\<close>), the collector setting changed by
  \<^verbatim>\<open>debug.SetGCPercent\<close>, the two cells that ReadBackground writes through its
  pointer arguments, and the two channels of ReadBackground: \<open>stopClosedAt\<close> is the
  time at which another goroutine closes \<^verbatim>\<open>stop\<close> (\<open>None\<close>: never).  Where a
  \<^verbatim>\<open>select\<close> finds both of its channels ready, Go chooses one at random:
  \<open>timerFirst w k\<close> is the choice at the \<open>k\<close>-th such tie.
\<close>

record world =
  clock :: time
  sensor :: "nat \<Rightarrow> attempt"
  nread :: nat
  gcPercent :: int
  trace :: "event list"
  humidityOut :: float64
  temperatureOut :: float64
  stopClosedAt :: "time option"
  stoppedClosed :: bool
  timerFirst :: "nat \<Rightarrow> bool"
  nselect :: nat

definition emit :: "event \<Rightarrow> world \<Rightarrow> world" where
  "emit e w = w\<lparr>trace := trace w @ [e]\<rparr>"

text \<open>\<^verbatim>\<open>time.Sleep\<close> returns at once for a negative or zero duration.\<close>

definition sleep :: "duration \<Rightarrow> world \<Rightarrow> world" where
  "sleep d w = emit (Sleep d) (w\<lparr>clock := clock w + max 0 d\<rparr>)"

text \<open>
  The busy read of lines 80 to 90: 84 rounds, each appending one duration and the
  level held during the round.
\<close>

function captureLoop :: "attempt \<Rightarrow> nat \<Rightarrow> level \<Rightarrow> level list \<Rightarrow> duration list \<Rightarrow> time
    \<Rightarrow> level list \<times> duration list \<times> time" where
  "captureLoop att i levelPrevious levels durations now =
     (if i < 84 then
        (case pulse att i of
           (d, level) \<Rightarrow>
             captureLoop att (i + 1) level (levels @ [levelPrevious])
               (durations @ [d]) (now + d))
      else (levels, durations, now))"
  by pat_completeness auto
termination
  by (relation "measure (\<lambda>(att, i, levelPrevious, levels, durations, now). 84 - i)") auto

definition readBits :: "DHT \<Rightarrow> world \<Rightarrow> (error + int list) outcome \<times> DHT \<times> world" where
  "readBits dht w =
     (let att = sensor w (nread w);
          dht1 = dht\<lparr>lastRead := clock w\<rparr>;
          w1 = emit (SetLastRead (clock w)) (w\<lparr>nread := nread w + 1\<rparr>);
          gcOld = gcPercent w1;
          w2 = emit (PinOut Low) (w1\<lparr>gcPercent := - 1\<rparr>)
      in case outLowErr att of
           Some e \<Rightarrow> (Done (Inl (PinOutLowError e)), dht1, emit (PinOut High) w2)
         | None \<Rightarrow>
             (let w3 = emit PinIn (sleep Millisecond w2)
              in case inErr att of
                   Some e \<Rightarrow> (Done (Inl (PinInError e)), dht1, emit (PinOut High) w3)
                 | None \<Rightarrow>
                     (case captureLoop att 0 (firstLevel att) [] [] (clock w3) of
                        (levels, durations, now) \<Rightarrow>
                          (let w4 = emit (PinOut High) (w3\<lparr>clock := now, gcPercent := gcOld\<rparr>)
                           in case outHighErr att of
                                Some e \<Rightarrow> (Done (Inl (PinOutHighError e)), dht1, w4)
                              | None \<Rightarrow> (decodePulses levels durations, dht1, w4)))))"

text \<open>The readBits of dhtWindows.go, which has no pin.\<close>

definition readBitsWindows :: "DHT \<Rightarrow> world \<Rightarrow> (error + int list) outcome \<times> DHT \<times> world" where
  "readBitsWindows dht w =
     (Done (Inr (replicate 40 0)), dht\<lparr>lastRead := clock w\<rparr>, emit (SetLastRead (clock w)) w)"

section \<open>Read, ReadRetry and ReadBackground\<close>

text \<open>Lines 20 to 26 of Read: the time to wait since the last attempt.\<close>

definition sleepTimeFor :: "int \<Rightarrow> duration" where
  "sleepTimeFor n =
     (if n < 57 then 2 * Second + n * 500 * Millisecond else 30 * Second)"

definition Read :: "DHT \<Rightarrow> world \<Rightarrow> (float64 \<times> float64 \<times> error option) outcome \<times> DHT \<times> world" where
  "Read dht w =
     (let sleepTime = sleepTimeFor (numErrors dht) - (clock w - lastRead dht)
      in case readBits dht (sleep sleepTime w) of
           (Panic, dht', w') \<Rightarrow> (Panic, dht', w')
         | (Done (Inl e), dht', w') \<Rightarrow> (Done (0, 0, Some e), dht', w')
         | (Done (Inr bits), dht', w') \<Rightarrow> (bitsToValues dht' bits, dht', w'))"

function ReadRetryLoop :: "int \<Rightarrow> int \<Rightarrow> float64 \<times> float64 \<times> error option \<Rightarrow> DHT \<Rightarrow> world
    \<Rightarrow> (float64 \<times> float64 \<times> error option) outcome \<times> DHT \<times> world" where
  "ReadRetryLoop i maxRetries r dht w =
     (if i < maxRetries then
        (case Read dht w of
           (Panic, dht', w') \<Rightarrow> (Panic, dht', w')
         | (Done (humidity, temperature, None), dht', w') \<Rightarrow>
             (Done (humidity, temperature, None), dht', w')
         | (Done (humidity, temperature, Some e), dht', w') \<Rightarrow>
             ReadRetryLoop (i + 1) maxRetries (humidity, temperature, Some e) dht' w')
      else (Done r, dht, w))"
  by pat_completeness auto
termination
  by (relation "measure (\<lambda>(i, maxRetries, r, dht, w). nat (maxRetries - i))") auto

definition ReadRetry :: "int \<Rightarrow> DHT \<Rightarrow> world
    \<Rightarrow> (float64 \<times> float64 \<times> error option) outcome \<times> DHT \<times> world" where
  "ReadRetry maxRetries dht w = ReadRetryLoop 0 maxRetries (0, 0, None) dht w"






declare fieldLoop.simps [simp del] checkSumLoop.simps [simp del] findLastLow.simps [simp del]
  highLoop.simps [simp del] lowLoop.simps [simp del] captureLoop.simps [simp del]
  ReadRetryLoop.simps [simp del]

section \<open>Concrete handles, frames, captures and worlds\<close>

text \<open>
  The handle that NewDHT returns for an AM2302 / DHT22 (any sensor type other than
  dht11 leaves the field empty) with Celsius, created when the clock shows one
  second: \<open>lastRead\<close> is one second before.
\<close>

definition newGeneric :: DHT where
  "newGeneric = \<lparr>temperatureUnit = Celsius, sensorType = [], numErrors = 0, lastRead = 0\<rparr>"

text \<open>
  Frames of 40 bits.  Humidity 0x0190 with temperature 0x8032, 0x0032 and 0xFFCE,
  each with its correct check sum byte (0x43, 0xC3, 0x5E).
\<close>

definition frame8032 :: "int list" where
  "frame8032 = [0,0,0,0,0,0,0,1, 1,0,0,1,0,0,0,0, 1,0,0,0,0,0,0,0, 0,0,1,1,0,0,1,0,
                0,1,0,0,0,0,1,1]"

definition frame0032 :: "int list" where
  "frame0032 = [0,0,0,0,0,0,0,1, 1,0,0,1,0,0,0,0, 0,0,0,0,0,0,0,0, 0,0,1,1,0,0,1,0,
                1,1,0,0,0,0,1,1]"

definition frameFFCE :: "int list" where
  "frameFFCE = [0,0,0,0,0,0,0,1, 1,0,0,1,0,0,0,0, 1,1,1,1,1,1,1,1, 1,1,0,0,1,1,1,0,
                0,1,0,1,1,1,1,0]"

text \<open>
  Humidity 0x03E9 = 1001 (out of range), temperature 0x00FA, and a check sum byte
  0x00 where the data bytes sum to 0xE6.
\<close>

definition frameBadBoth :: "int list" where
  "frameBadBoth = [0,0,0,0,0,0,1,1, 1,1,1,0,1,0,0,1, 0,0,0,0,0,0,0,0, 1,1,1,1,1,0,1,0,
                   0,0,0,0,0,0,0,0]"

text \<open>Humidity 0x0190 = 40.0 %, temperature 0x00FA = 25.0 C, check sum 0x8B.\<close>

definition frameGood :: "int list" where
  "frameGood = [0,0,0,0,0,0,0,1, 1,0,0,1,0,0,0,0, 0,0,0,0,0,0,0,0, 1,1,1,1,1,0,1,0,
                1,0,0,0,1,0,1,1]"

text \<open>
  A complete transmission as the busy read records it: the released line (high),
  the sensor's response (low, high), then for each bit a low of 50 us and a high of
  26 us (bit 0) or 70 us (bit 1), and the closing low.  Durations in nanoseconds.
\<close>

definition txLevels :: "level list" where
  "txLevels = High # Low # High # concat (replicate 40 [Low, High]) @ [Low]"

definition txDurations :: "int list \<Rightarrow> duration list" where
  "txDurations bits =
     30000 # 80000 # 80000 #
     concat (map (\<lambda>b. [50000, if b = 1 then 70000 else 26000]) bits) @ [50000]"

text \<open>
  A capture that starts four pulses late: slot 0 already holds the high of the
  first bit, the closing low is slot 79, and the idle line fills slots 80 to 83, each
  ended by the 1 ms limit of the inner loop.
\<close>

definition lateLevels :: "level list" where
  "lateLevels = concat (replicate 40 [High, Low]) @ [High, High, High, High]"

definition lateDurations :: "int list \<Rightarrow> duration list" where
  "lateDurations bits =
     concat (map (\<lambda>b. [if b = 1 then 70000 else 26000, 50000]) bits) @
     [1000200, 1000200, 1000200, 1000200]"

text \<open>An attempt without pin errors whose busy read records the given slices.\<close>

definition attemptOf :: "level list \<Rightarrow> duration list \<Rightarrow> attempt" where
  "attemptOf ls ds =
     \<lparr>outLowErr = None, inErr = None, firstLevel = ls ! 0,
      pulse = (\<lambda>i. (ds ! i, if i + 1 < length ls then ls ! (i + 1) else High)),
      outHighErr = None\<rparr>"

definition goodAttempt :: attempt where
  "goodAttempt = attemptOf txLevels (txDurations frameGood)"

text \<open>A sensor that does not answer: the line stays high through all 84 rounds.\<close>

definition silentAttempt :: attempt where
  "silentAttempt =
     \<lparr>outLowErr = None, inErr = None, firstLevel = High,
      pulse = (\<lambda>i. (1000200, High)), outHighErr = None\<rparr>"

text \<open>
  A world whose clock shows one second, with the given sensor behaviour and the
  given closing time of the stop channel.
\<close>

definition worldWith :: "(nat \<Rightarrow> attempt) \<Rightarrow> time option \<Rightarrow> world" where
  "worldWith s st =
     \<lparr>clock = 1000000000, sensor = s, nread = 0, gcPercent = 100, trace = [],
      humidityOut = 0, temperatureOut = 0, stopClosedAt = st, stoppedClosed = False,
      timerFirst = (\<lambda>k. False), nselect = 0\<rparr>"

text \<open>
  Three sensors: one that always answers with the good frame, one that never
  answers, and one that answers from the third attempt on.
\<close>

definition goodWorld :: world where
  "goodWorld = worldWith (\<lambda>n. goodAttempt) None"

definition silentWorld :: world where
  "silentWorld = worldWith (\<lambda>n. silentAttempt) None"

definition flakyWorld :: world where
  "flakyWorld = worldWith (\<lambda>n. if n < 2 then silentAttempt else goodAttempt) None"



text \<open>
  The good frame with its check sum byte changed from 0x8B to 0x8A: both fields
  are in range, the check sum is wrong.
\<close>

definition frameBadSum :: "int list" where
  "frameBadSum = [0,0,0,0,0,0,0,1, 1,0,0,1,0,0,0,0, 0,0,0,0,0,0,0,0, 1,1,1,1,1,0,1,0,
                  1,0,0,0,1,0,1,0]"


section \<open>The bytes of a frame\<close>

text \<open>
  To state what the check sum is compared with: byte \<open>k\<close> of a frame is the
  unsigned value of its bits \<open>8 * k\<close> to \<open>8 * k + 7\<close>, most significant bit first.
  Bytes 0 and 1 are the humidity field, bytes 2 and 3 the temperature field, byte 4
  the transmitted check sum.
\<close>

definition frameByte :: "int list \<Rightarrow> nat \<Rightarrow> int" where
  "frameByte bits k =
     128 * bits ! (8 * k) + 64 * bits ! (8 * k + 1) + 32 * bits ! (8 * k + 2) +
     16 * bits ! (8 * k + 3) + 8 * bits ! (8 * k + 4) + 4 * bits ! (8 * k + 5) +
     2 * bits ! (8 * k + 6) + bits ! (8 * k + 7)"

section \<open>Notions for ReadBackground\<close>



section \<open>Consecutive calls of Read\<close>

text \<open>
  To speak about what a loop around Read does: the handle and the world after
  \<open>k\<close> consecutive calls of Read, the result of the call that follows them, and
  whether a result carries an error.
\<close>

primrec afterReads :: "nat \<Rightarrow> DHT \<Rightarrow> world \<Rightarrow> DHT \<times> world" where
  "afterReads 0 dht w = (dht, w)"
| "afterReads (Suc k) dht w = (case Read dht w of (r, dht', w') \<Rightarrow> afterReads k dht' w')"

definition readResult :: "nat \<Rightarrow> DHT \<Rightarrow> world \<Rightarrow> (float64 \<times> float64 \<times> error option) outcome" where
  "readResult k dht w = (case afterReads k dht w of (dht', w') \<Rightarrow> fst (Read dht' w'))"

fun failed :: "(float64 \<times> float64 \<times> error option) outcome \<Rightarrow> bool" where
  "failed (Done (humidity, temperature, Some e)) = True"
| "failed (Done (humidity, temperature, None)) = False"
| "failed Panic = False"

fun succeeded :: "(float64 \<times> float64 \<times> error option) outcome \<Rightarrow> bool" where
  "succeeded (Done (humidity, temperature, None)) = True"
| "succeeded (Done (humidity, temperature, Some e)) = False"
| "succeeded Panic = False"

section \<open>The fields of a frame\<close>

text \<open>
  Bit 15 of an integer, and the effect of \<^verbatim>\<open>temperatureInt |= ^0xffff\<close> on a
  16-bit value: all bits from 16 up are set, which subtracts \<open>2 ^ 16\<close>.
\<close>

lemma and_8000_pos: "((x::int) AND 0x8000 > 0) = bit x 15"
proof -
  have "(x AND 2 ^ 15 = 0) = (\<not> bit x 15)"
    by (rule and_exp_eq_0_iff_not_bit)
  moreover have "0 \<le> x AND 2 ^ 15" by simp
  ultimately show ?thesis by (auto simp: order_less_le) 
qed

lemma or_not_ffff:
  assumes "0 \<le> x" "x < 65536"
  shows "(x::int) OR - 65536 = x - 65536"
proof -
  have t: "take_bit 16 x = x" using assms by (simp add: take_bit_int_eq_self)
  have "take_bit 16 x AND NOT (mask 16) = 0"
    by (simp add: bit_eq_iff bit_simps)
  then have "x + NOT (mask 16) = x OR NOT (mask 16)"
    unfolding t by (rule disjunctive_add_eq_or)
  moreover have "NOT (mask 16) = - (65536::int)"
    by (simp flip: minus_exp_eq_not_mask)
  ultimately show ?thesis by simp
qed

lemma signExtend_high:
  assumes "32768 \<le> x" "x < 65536"
  shows "signExtend x = x - 65536"
proof -
  have "x div 32768 = 1" using assms by linarith
  then have "bit x 15" by (simp add: bit_iff_odd)
  then show ?thesis using assms by (simp add: signExtend_def and_8000_pos or_not_ffff)
qed

lemma signExtend_low:
  assumes "0 \<le> x" "x < 32768"
  shows "signExtend x = x"
proof -
  have "x div 32768 = 0" using assms by simp
  then have "\<not> bit x 15" by (simp add: bit_iff_odd)
  then show ?thesis by (simp add: signExtend_def and_8000_pos)
qed

lemma sum16_expand:
  fixes f :: "nat \<Rightarrow> int"
  shows "(\<Sum>k<16. f k * 2 ^ (15 - k)) =
     f 0 * 32768 + f 1 * 16384 + f 2 * 8192 + f 3 * 4096 + f 4 * 2048 + f 5 * 1024 +
     f 6 * 512 + f 7 * 256 + f 8 * 128 + f 9 * 64 + f 10 * 32 + f 11 * 16 + f 12 * 8 +
     f 13 * 4 + f 14 * 2 + f 15"
  by (simp add: eval_nat_numeral)

lemma sum16_range:
  fixes f :: "nat \<Rightarrow> int"
  assumes b: "\<And>k. k < 16 \<Longrightarrow> f k = 0 \<or> f k = 1"
  shows "0 \<le> (\<Sum>k<16. f k * 2 ^ (15 - k)) \<and> (\<Sum>k<16. f k * 2 ^ (15 - k)) < 65536 \<and>
    (f 0 = 1 \<longrightarrow> 32768 \<le> (\<Sum>k<16. f k * 2 ^ (15 - k))) \<and>
    (f 0 = 0 \<longrightarrow> (\<Sum>k<16. f k * 2 ^ (15 - k)) < 32768)"
proof -
  have r: "0 \<le> f k \<and> f k \<le> 1" if "k < 16" for k
    using b [OF that] by auto
  note rs = r [of 0] r [of 1] r [of 2] r [of 3] r [of 4] r [of 5] r [of 6] r [of 7]
    r [of 8] r [of 9] r [of 10] r [of 11] r [of 12] r [of 13] r [of 14] r [of 15]
  show ?thesis
    unfolding sum16_expand using rs by simp
qed

lemma parseBits_fields:
  assumes len: "length bits = 40"
  shows "\<exists>s c. parseBits bits =
     Done ((\<Sum>k<16. bits ! k * 2 ^ (15 - k)),
           signExtend (\<Sum>k<16. bits ! (16 + k) * 2 ^ (15 - k)), s, c)"
proof -
  obtain s1 t1 where h: "fieldLoop bits 0 16 7 15 (0, 0, 0) =
      Done ((\<Sum>k<16. bits ! k * 2 ^ (15 - k)), s1, t1)"
    using len by (simp add: fieldLoop.simps sliceAt_def eval_nat_numeral)
  obtain s2 t2 where t: "fieldLoop bits 16 32 23 31 (0, s1, t1) =
      Done ((\<Sum>k<16. bits ! (16 + k) * 2 ^ (15 - k)), s2, t2)"
    using len by (simp add: fieldLoop.simps sliceAt_def eval_nat_numeral)
  obtain c where c: "checkSumLoop bits 32 0 = Done c"
    using len by (simp add: checkSumLoop.simps sliceAt_def)
  show ?thesis
    by (simp add: parseBits_def h t c)
qed


text \<open>
  Claim C1, as the code has it.  The claim reads the temperature field as sign and
  magnitude; the code extends the sign of a 16-bit two's complement value.  For
  every frame of 40 bits, the temperature integer is the unsigned value of bits 16
  to 31 (most significant first) when bit 16 is clear, and that value minus 65536
  when bit 16 is set.  So for the generic variant with a good humidity and check
  sum the field 0xFFCE gives -5.0 C and 0x0032 gives +5.0 C, while 0x8032 is the
  integer -32718, which the range check rejects.
\<close>

theorem temperature_twos_complement:
  assumes len: "length bits = 40" and bin: "set bits \<subseteq> {0, 1}"
  shows "(\<exists>h t s c. parseBits bits = Done (h, t, s, c) \<and>
           t = (if bits ! 16 = 1 then (\<Sum>k<16. bits ! (16 + k) * 2 ^ (15 - k)) - 65536
                else (\<Sum>k<16. bits ! (16 + k) * 2 ^ (15 - k)))) \<and>
         bitsToValues newGeneric frameFFCE = Done (40, - 5, None) \<and>
         bitsToValues newGeneric frame0032 = Done (40, 5, None) \<and>
         bitsToValues newGeneric frame8032 = Done (0, 0, Some (BadTemperature (- 32718)))"
proof -
  let ?raw = "\<Sum>k<16. bits ! (16 + k) * 2 ^ (15 - k)"
  have b: "bits ! k = 0 \<or> bits ! k = 1" if "k < 40" for k
  proof -
    have "bits ! k \<in> set bits" using that len by (intro nth_mem) simp
    then show ?thesis using bin by auto
  qed
  have r: "0 \<le> ?raw \<and> ?raw < 65536 \<and> (bits ! (16 + 0) = 1 \<longrightarrow> 32768 \<le> ?raw) \<and>
      (bits ! (16 + 0) = 0 \<longrightarrow> ?raw < 32768)"
    by (rule sum16_range) (simp add: b)
  have "bits ! 16 = 0 \<or> bits ! 16 = 1" by (simp add: b)
  then have "signExtend ?raw = (if bits ! 16 = 1 then ?raw - 65536 else ?raw)"
    using r by (auto simp: signExtend_high signExtend_low)
  then have "\<exists>h t s c. parseBits bits = Done (h, t, s, c) \<and>
           t = (if bits ! 16 = 1 then ?raw - 65536 else ?raw)"
    using parseBits_fields [OF len] by auto
  moreover have "bitsToValues newGeneric frameFFCE = Done (40, - 5, None)" by code_simp
  moreover have "bitsToValues newGeneric frame0032 = Done (40, 5, None)" by code_simp
  moreover have "bitsToValues newGeneric frame8032 = Done (0, 0, Some (BadTemperature (- 32718)))"
    by code_simp
  ultimately show ?thesis by blast
qed

theorem temperature_twos_complement_witness:
  "length frame8032 = 40 \<and> set frame8032 \<subseteq> {0, 1} \<and> frame8032 ! 16 = 1 \<and>
   (\<exists>h s c. parseBits frame8032 = Done (h, 32818 - 65536, s, c))"
  using temperature_twos_complement [of frame8032]
  by (simp add: frame8032_def sum16_expand)

text \<open>
  The frame of claim C1 with the temperature field 0x8032 (humidity 40.0 %, check
  sum correct) is not converted to -5.0 C: the call fails with the temperature
  range error for -32718.
\<close>

theorem frame8032_not_minus_five:
  "parseBits frame8032 = Done (400, - 32718, 0x43, 0x43) \<and>
   bitsToValues newGeneric frame8032 = Done (0, 0, Some (BadTemperature (- 32718))) \<and>
   bitsToValues newGeneric frame8032 \<noteq> Done (40, - 5, None)"
  by code_simp

section \<open>Range checks and check sum\<close>

text \<open>
  What parseBits returns, in terms of the five bytes of the frame: the two 16-bit
  fields, the sum of the four data bytes cut to 8 bits, and the check sum byte.
\<close>

lemma parseBits_bytes:
  assumes len: "length bits = 40"
  shows "parseBits bits =
     Done (256 * frameByte bits 0 + frameByte bits 1,
           signExtend (256 * frameByte bits 2 + frameByte bits 3),
           word_of_int (frameByte bits 0 + frameByte bits 1 + frameByte bits 2 + frameByte bits 3),
           word_of_int (frameByte bits 4))"
proof -
  have h: "fieldLoop bits 0 16 7 15 (0, 0, 0) =
      Done (256 * frameByte bits 0 + frameByte bits 1, 0,
            word_of_int (frameByte bits 0 + frameByte bits 1))"
    using len
    by (simp add: fieldLoop.simps sliceAt_def frameByte_def push_bit_eq_mult algebra_simps
        flip: numeral_2_eq_2)
  have t: "fieldLoop bits 16 32 23 31 (0, 0, s) =
      Done (256 * frameByte bits 2 + frameByte bits 3, 0,
            s + word_of_int (frameByte bits 2 + frameByte bits 3))" for s
    using len
    by (simp add: fieldLoop.simps sliceAt_def frameByte_def push_bit_eq_mult algebra_simps)
  have c: "checkSumLoop bits 32 0 = Done (word_of_int (frameByte bits 4))"
    using len
    by (simp add: checkSumLoop.simps sliceAt_def frameByte_def push_bit_eq_mult algebra_simps)
  show ?thesis
    by (simp add: parseBits_def h t c)
qed

text \<open>
  In a frame of 0/1 bits every byte lies between 0 and 255, and two 8-bit values
  differ exactly when the check sum byte differs from the sum modulo 256.
\<close>

lemma frameByte_range:
  assumes len: "length bits = 40" and bin: "set bits \<subseteq> {0, 1}" and k: "k < 5"
  shows "0 \<le> frameByte bits k \<and> frameByte bits k < 256"
proof -
  have b: "0 \<le> bits ! i \<and> bits ! i \<le> 1" if "i < 40" for i
  proof -
    have "bits ! i \<in> set bits" using that len by (intro nth_mem) simp
    then show ?thesis using bin by auto
  qed
  note bs = b [of "8 * k"] b [of "8 * k + 1"] b [of "8 * k + 2"] b [of "8 * k + 3"]
    b [of "8 * k + 4"] b [of "8 * k + 5"] b [of "8 * k + 6"] b [of "8 * k + 7"]
  show ?thesis
    unfolding frameByte_def using bs k by simp
qed

lemma checksum_words:
  assumes "0 \<le> c" "c < 256"
  shows "((word_of_int c :: 8 word) \<noteq> word_of_int s) = (c \<noteq> s mod 256)"
proof -
  have "((word_of_int c :: 8 word) = word_of_int s) = (take_bit 8 c = take_bit 8 s)"
    by (simp add: word_of_int_eq_iff)
  moreover have "take_bit 8 c = c" using assms by (simp add: take_bit_int_eq_self)
  moreover have "take_bit 8 s = s mod 256" by (simp add: take_bit_eq_mod)
  ultimately show ?thesis by simp
qed

text \<open>
  Claim C2, as the code has it.  The claim wants at least the check sum fault
  reported when both checks fail; the code checks the ranges first and returns at
  once on a range fault.  For every frame of 40 bits: a humidity integer (bytes 0
  and 1) out of range gives the humidity range error with both values zero;
  otherwise a temperature integer (bytes 2 and 3, sign extended) out of range gives
  the temperature range error with both values zero; and only a frame that passes
  both range checks is reported by its check sum: the check sum error exactly when
  byte 4 (bits 32 to 39) differs from the sum of the four data bytes cut to 8
  bits, and no error otherwise.
\<close>

theorem range_checked_before_checksum:
  assumes len: "length bits = 40" and bin: "set bits \<subseteq> {0, 1}"
  shows "\<exists>humidity temperature err.
     bitsToValues dht bits = Done (humidity, temperature, err) \<and>
     (let h = 256 * frameByte bits 0 + frameByte bits 1;
          raw = 256 * frameByte bits 2 + frameByte bits 3;
          t = (if 32768 \<le> raw then raw - 65536 else raw);
          sumFails = (frameByte bits 4 \<noteq>
            (frameByte bits 0 + frameByte bits 1 + frameByte bits 2 + frameByte bits 3) mod 256);
          hmax = (if sensorType dht = ''dht11'' then 100 else 1000);
          tmin = (if sensorType dht = ''dht11'' then 0 else - 400);
          tmax = (if sensorType dht = ''dht11'' then 50 else 800)
      in (h < 0 \<or> hmax < h \<longrightarrow> (humidity, temperature, err) = (0, 0, Some (BadHumidity h))) \<and>
         (0 \<le> h \<and> h \<le> hmax \<and> (t < tmin \<or> tmax < t)
            \<longrightarrow> (humidity, temperature, err) = (0, 0, Some (BadTemperature t))) \<and>
         (0 \<le> h \<and> h \<le> hmax \<and> tmin \<le> t \<and> t \<le> tmax
            \<longrightarrow> err = (if sumFails then Some CheckSumFail else None)))"
proof -
  define h where "h = 256 * frameByte bits 0 + frameByte bits 1"
  define raw where "raw = 256 * frameByte bits 2 + frameByte bits 3"
  define t where "t = (if 32768 \<le> raw then raw - 65536 else raw)"
  define s :: "8 word" where "s = word_of_int
    (frameByte bits 0 + frameByte bits 1 + frameByte bits 2 + frameByte bits 3)"
  define c :: "8 word" where "c = word_of_int (frameByte bits 4)"
  have r2: "0 \<le> frameByte bits 2 \<and> frameByte bits 2 < 256"
    and r3: "0 \<le> frameByte bits 3 \<and> frameByte bits 3 < 256"
    and r4: "0 \<le> frameByte bits 4 \<and> frameByte bits 4 < 256"
    using frameByte_range [OF len bin] by simp_all
  have raw: "0 \<le> raw \<and> raw < 65536" using r2 r3 by (simp add: raw_def)
  have se: "signExtend raw = t"
    using raw by (simp add: t_def signExtend_high signExtend_low)
  have p: "parseBits bits = Done (h, t, s, c)"
    using parseBits_bytes [OF len] by (simp add: h_def raw_def [symmetric] se s_def c_def)
  have cs: "(c \<noteq> s) = (frameByte bits 4 \<noteq>
      (frameByte bits 0 + frameByte bits 1 + frameByte bits 2 + frameByte bits 3) mod 256)"
    unfolding c_def s_def using r4 by (intro checksum_words) simp_all
  obtain hu te er where cv: "checkValues dht (h, t, s, c) = (hu, te, er)"
    by (cases "checkValues dht (h, t, s, c)") auto
  have b: "bitsToValues dht bits = Done (hu, te, er)"
    by (simp add: bitsToValues_def p cv)
  have "let hmax = (if sensorType dht = ''dht11'' then 100 else 1000);
          tmin = (if sensorType dht = ''dht11'' then 0 else - 400);
          tmax = (if sensorType dht = ''dht11'' then 50 else 800)
      in (h < 0 \<or> hmax < h \<longrightarrow> (hu, te, er) = (0, 0, Some (BadHumidity h))) \<and>
         (0 \<le> h \<and> h \<le> hmax \<and> (t < tmin \<or> tmax < t)
            \<longrightarrow> (hu, te, er) = (0, 0, Some (BadTemperature t))) \<and>
         (0 \<le> h \<and> h \<le> hmax \<and> tmin \<le> t \<and> t \<le> tmax
            \<longrightarrow> er = (if c \<noteq> s then Some CheckSumFail else None))"
    using cv by (cases "sensorType dht = ''dht11''") (auto simp: checkValues_def)
  then show ?thesis
    using b unfolding cs h_def [symmetric] raw_def [symmetric] Let_def t_def [symmetric]
    by blast
qed

theorem range_checked_before_checksum_witness:
  "length frameBadBoth = 40 \<and> set frameBadBoth \<subseteq> {0, 1} \<and>
   bitsToValues newGeneric frameBadBoth = Done (0, 0, Some (BadHumidity 1001)) \<and>
   length frame8032 = 40 \<and> set frame8032 \<subseteq> {0, 1} \<and>
   bitsToValues newGeneric frame8032 = Done (0, 0, Some (BadTemperature (- 32718))) \<and>
   length frameBadSum = 40 \<and> set frameBadSum \<subseteq> {0, 1} \<and>
   (\<exists>humidity temperature.
      bitsToValues newGeneric frameBadSum = Done (humidity, temperature, Some CheckSumFail)) \<and>
   length frameGood = 40 \<and> set frameGood \<subseteq> {0, 1} \<and>
   (\<exists>humidity temperature.
      bitsToValues newGeneric frameGood = Done (humidity, temperature, None))"
proof -
  have g: "sensorType newGeneric \<noteq> ''dht11''" by (simp add: newGeneric_def)
  have l1: "length frameBadBoth = 40" and b1: "set frameBadBoth \<subseteq> {0, 1}"
    by (simp_all add: frameBadBoth_def)
  have y1: "frameByte frameBadBoth 0 = 3" "frameByte frameBadBoth 1 = 233"
    "frameByte frameBadBoth 2 = 0" "frameByte frameBadBoth 3 = 250"
    "frameByte frameBadBoth 4 = 0"
    by (simp_all add: frameByte_def frameBadBoth_def)
  have z1: "frameByte frameBadBoth (Suc 0) = 233" using y1(2) by simp
  have r1: "bitsToValues newGeneric frameBadBoth = Done (0, 0, Some (BadHumidity 1001))"
    using range_checked_before_checksum [OF l1 b1, of newGeneric] by (simp add: Let_def z1 y1 g)
  have l2: "length frame8032 = 40" and b2: "set frame8032 \<subseteq> {0, 1}"
    by (simp_all add: frame8032_def)
  have y2: "frameByte frame8032 0 = 1" "frameByte frame8032 1 = 144"
    "frameByte frame8032 2 = 128" "frameByte frame8032 3 = 50"
    "frameByte frame8032 4 = 67"
    by (simp_all add: frameByte_def frame8032_def)
  have z2: "frameByte frame8032 (Suc 0) = 144" using y2(2) by simp
  have r2: "bitsToValues newGeneric frame8032 = Done (0, 0, Some (BadTemperature (- 32718)))"
    using range_checked_before_checksum [OF l2 b2, of newGeneric] by (simp add: Let_def z2 y2 g)
  have l3: "length frameBadSum = 40" and b3: "set frameBadSum \<subseteq> {0, 1}"
    by (simp_all add: frameBadSum_def)
  have y3: "frameByte frameBadSum 0 = 1" "frameByte frameBadSum 1 = 144"
    "frameByte frameBadSum 2 = 0" "frameByte frameBadSum 3 = 250"
    "frameByte frameBadSum 4 = 138"
    by (simp_all add: frameByte_def frameBadSum_def)
  have z3: "frameByte frameBadSum (Suc 0) = 144" using y3(2) by simp
  have r3: "\<exists>humidity temperature.
      bitsToValues newGeneric frameBadSum = Done (humidity, temperature, Some CheckSumFail)"
    using range_checked_before_checksum [OF l3 b3, of newGeneric] by (simp add: Let_def z3 y3 g)
  have l4: "length frameGood = 40" and b4: "set frameGood \<subseteq> {0, 1}"
    by (simp_all add: frameGood_def)
  have y4: "frameByte frameGood 0 = 1" "frameByte frameGood 1 = 144"
    "frameByte frameGood 2 = 0" "frameByte frameGood 3 = 250"
    "frameByte frameGood 4 = 139"
    by (simp_all add: frameByte_def frameGood_def)
  have z4: "frameByte frameGood (Suc 0) = 144" using y4(2) by simp
  have r4: "\<exists>humidity temperature.
      bitsToValues newGeneric frameGood = Done (humidity, temperature, None)"
    using range_checked_before_checksum [OF l4 b4, of newGeneric] by (simp add: Let_def z4 y4 g)
  show ?thesis using l1 b1 r1 l2 b2 r2 l3 b3 r3 l4 b4 r4 by blast
qed

text \<open>
  A frame with humidity 1001 and a wrong check sum byte (0x00 where the four data
  bytes sum to 0xE6) fails both checks; what is reported is the humidity range
  error, not the check sum error.
\<close>

theorem range_fault_hides_checksum_fault:
  "frameByte frameBadBoth 4 = 0 \<and>
   (frameByte frameBadBoth 0 + frameByte frameBadBoth 1 + frameByte frameBadBoth 2 +
    frameByte frameBadBoth 3) mod 256 = 230 \<and>
   256 * frameByte frameBadBoth 0 + frameByte frameBadBoth 1 = 1001 \<and>
   parseBits frameBadBoth = Done (1001, 250, 0xE6, 0x00) \<and>
   bitsToValues newGeneric frameBadBoth = Done (0, 0, Some (BadHumidity 1001)) \<and>
   bitsToValues newGeneric frameBadBoth \<noteq> Done (0, 0, Some CheckSumFail)"
  by code_simp

section \<open>The frame decoder\<close>

text \<open>
  Reading a slice that was updated at one index, and reading a window of a slice.
\<close>

lemma sliceAt_update:
  "0 \<le> j \<Longrightarrow> sliceAt (xs[nat j := v]) i =
     (if i = j \<and> j < int (length xs) then Some v else sliceAt xs i)"
  by (auto simp: sliceAt_def nth_list_update)

lemma sliceAt_window:
  assumes "0 \<le> s" "s + m \<le> int (length xs)" "s \<le> t" "t < s + m"
  shows "sliceAt (take (nat m) (drop (nat s) xs)) (t - s) = sliceAt xs t"
proof -
  have a: "nat (t - s) < nat m" using assms by linarith
  have b: "nat s + nat (t - s) = nat t" using assms by linarith
  have c: "nat s + nat m \<le> length xs" using assms by linarith
  have "take (nat m) (drop (nat s) xs) ! nat (t - s) = xs ! nat t"
    using a b c by simp
  moreover have "t - s < int (length (take (nat m) (drop (nat s) xs)))"
    using assms by simp
  ultimately show ?thesis using assms by (simp add: sliceAt_def)
qed

text \<open>
  Each of the two loops reads the slices only at the indices it visits (every
  second index from its start), so it gives the same result on slices that hold the
  same values there, also when they are shifted by \<open>s\<close>.
\<close>

lemma highLoop_shift:
  assumes "\<forall>t. i \<le> t \<and> t < e \<and> even (t - i) \<longrightarrow>
      sliceAt L' (t - s) = sliceAt L t \<and> sliceAt D' (t - s) = sliceAt D t"
  shows "highLoop L' D' (i - s) (e - s) b n = highLoop L D i e b n"
  using assms
proof (induction L D i e b n rule: highLoop.induct)
  case (1 L D i e b n)
  show ?case
  proof (cases "i < e")
    case False
    then show ?thesis by (simp add: highLoop.simps)
  next
    case True
    have here: "sliceAt L' (i - s) = sliceAt L i" "sliceAt D' (i - s) = sliceAt D i"
      using "1.prems" True by auto
    have rest: "\<forall>t. i + 2 \<le> t \<and> t < e \<and> even (t - (i + 2)) \<longrightarrow>
        sliceAt L' (t - s) = sliceAt L t \<and> sliceAt D' (t - s) = sliceAt D t"
      using "1.prems" by auto
    have shift: "i + 2 - s = i - s + 2" by simp
    show ?thesis
    proof (cases "sliceAt L i")
      case None
      then show ?thesis using True here
        by (subst highLoop.simps, subst (2) highLoop.simps) simp
    next
      case (Some l)
      note L = this
      show ?thesis
      proof (cases "sliceAt D i")
        case None
        then show ?thesis using True here L
          by (subst highLoop.simps, subst (2) highLoop.simps) simp
      next
        case (Some d)
        note D = this
        have ih1: "highLoop L' D' (i + 2 - s) (e - s) (b[nat n := 1]) (n + 1) =
              highLoop L D (i + 2) e (b[nat n := 1]) (n + 1)"
          if "l = High" "\<not> d > 90 * Microsecond" "d > 30 * Microsecond" "0 \<le> n \<and> n < int (length b)"
          using "1.IH"(1) [OF True L _ D _ _ _ rest] that by simp
        have ih2: "highLoop L' D' (i + 2 - s) (e - s) b (n + 1) =
              highLoop L D (i + 2) e b (n + 1)"
          if "l = High" "\<not> d > 90 * Microsecond" "\<not> d > 30 * Microsecond"
          using "1.IH"(2) [OF True L _ D _ _ rest] that by simp
        show ?thesis
          using True here L D ih1 ih2
          by (subst highLoop.simps, subst (2) highLoop.simps) (simp add: shift)
      qed
    qed
  qed
qed


lemma lowLoop_shift:
  assumes "\<forall>t. i \<le> t \<and> t < e \<and> even (t - i) \<longrightarrow>
      sliceAt L' (t - s) = sliceAt L t \<and> sliceAt D' (t - s) = sliceAt D t"
  shows "lowLoop L' D' (i - s) (e - s) = lowLoop L D i e"
  using assms
proof (induction L D i e rule: lowLoop.induct)
  case (1 L D i e)
  show ?case
  proof (cases "i < e")
    case False
    then show ?thesis by (simp add: lowLoop.simps)
  next
    case True
    have here: "sliceAt L' (i - s) = sliceAt L i" "sliceAt D' (i - s) = sliceAt D i"
      using "1.prems" True by auto
    have rest: "\<forall>t. i + 2 \<le> t \<and> t < e \<and> even (t - (i + 2)) \<longrightarrow>
        sliceAt L' (t - s) = sliceAt L t \<and> sliceAt D' (t - s) = sliceAt D t"
      using "1.prems" by auto
    have shift: "i + 2 - s = i - s + 2" by simp
    show ?thesis
    proof (cases "sliceAt L i")
      case None
      then show ?thesis using True here
        by (subst lowLoop.simps, subst (2) lowLoop.simps) simp
    next
      case (Some l)
      note L = this
      show ?thesis
      proof (cases "sliceAt D i")
        case None
        then show ?thesis using True here L
          by (subst lowLoop.simps, subst (2) lowLoop.simps) simp
      next
        case (Some d)
        note D = this
        have ih: "lowLoop L' D' (i + 2 - s) (e - s) = lowLoop L D (i + 2) e"
          if "l = Low" "\<not> d > 70 * Microsecond" "\<not> d < 35 * Microsecond"
          using "1.IH" [OF True L _ D _ _ rest] that by simp
        show ?thesis
          using True here L D ih
          by (subst lowLoop.simps, subst (2) lowLoop.simps) (simp add: shift)
      qed
    qed
  qed
qed

text \<open>
  On 84 levels the backward search looks at the indices 83 down to 79.
\<close>

lemma findLastLow_84:
  assumes "length levels = 84"
  shows "findLastLow levels 83 =
     (if levels ! 83 = Low then Done (Inr 83)
      else if levels ! 82 = Low then Done (Inr 82)
      else if levels ! 81 = Low then Done (Inr 81)
      else if levels ! 80 = Low then Done (Inr 80)
      else if levels ! 79 = Low then Done (Inr 79)
      else Done (Inl MissingLowLevel))"
  using assms by (simp add: findLastLow.simps sliceAt_def)

text \<open>One round of the high loop, and what a successful run tells about it.\<close>

lemma highLoop_unfold:
  "i < e \<Longrightarrow> highLoop L D i e b n =
        (case sliceAt L i of
           None \<Rightarrow> Panic
         | Some l \<Rightarrow>
             if l \<noteq> High then Done (Inl LevelNotHigh)
             else
               (case sliceAt D i of
                  None \<Rightarrow> Panic
                | Some d \<Rightarrow>
                    if d > 90 * Microsecond then Done (Inl (HighTooLong d))
                    else if d > 30 * Microsecond then
                      (if 0 \<le> n \<and> n < int (length b)
                       then highLoop L D (i + 2) e (b[nat n := 1]) (n + 1)
                       else Panic)
                    else highLoop L D (i + 2) e b (n + 1)))"
  by (subst highLoop.simps) simp

lemma highLoop_step:
  assumes base: "highLoop L D i e b n = Done (Inr bits)" and lt: "i < e"
  shows "\<exists>d. sliceAt L i = Some High \<and> sliceAt D i = Some d \<and> d \<le> 90 * Microsecond \<and>
     (if d > 30 * Microsecond
      then 0 \<le> n \<and> n < int (length b) \<and>
           highLoop L D (i + 2) e (b[nat n := 1]) (n + 1) = Done (Inr bits)
      else highLoop L D (i + 2) e b (n + 1) = Done (Inr bits))"
proof -
  note u = base [unfolded highLoop_unfold [OF lt]]
  obtain l where l: "sliceAt L i = Some l" using u by (cases "sliceAt L i") auto
  have h: "l = High" using u l by (cases "l = High") auto
  obtain d where d: "sliceAt D i = Some d" using u l h by (cases "sliceAt D i") auto
  have d90: "d \<le> 90 * Microsecond" using u l h d by (cases "d > 90 * Microsecond") auto
  show ?thesis
  proof (cases "d > 30 * Microsecond")
    case True
    have "0 \<le> n \<and> n < int (length b)"
      using u l h d d90 True by (cases "0 \<le> n \<and> n < int (length b)") auto
    then show ?thesis using u l h d d90 True by auto
  next
    case False
    then show ?thesis using u l h d d90 by auto
  qed
qed

text \<open>
  The rounds that follow bit \<open>n\<close> write only at indices from \<open>n\<close> on: an earlier
  entry of \<open>bits\<close> passes through the loop unchanged.
\<close>

lemma highLoop_bits_update:
  "0 \<le> k \<Longrightarrow> k < n \<Longrightarrow>
   highLoop L D i e (b[nat k := x]) n =
     (case highLoop L D i e b n of
        Done (Inr bits) \<Rightarrow> Done (Inr (bits[nat k := x]))
      | r \<Rightarrow> r)"
proof (induction L D i e b n rule: highLoop.induct)
  case (1 L D i e b n)
  show ?case
  proof (cases "i < e")
    case False
    then show ?thesis by (simp add: highLoop.simps)
  next
    case True
    note u = highLoop_unfold [OF True]
    show ?thesis
    proof (cases "sliceAt L i")
      case None
      then show ?thesis by (simp add: u)
    next
      case (Some l)
      note L = this
      show ?thesis
      proof (cases "sliceAt D i")
        case None
        then show ?thesis using L by (simp add: u)
      next
        case (Some d)
        note D = this
        have swap: "b[nat k := x, nat n := 1] = b[nat n := 1, nat k := x]"
          using "1.prems" by (simp add: list_update_swap)
        show ?thesis
        proof (cases "l = High \<and> \<not> d > 90 * Microsecond")
          case False
          then show ?thesis using L D by (auto simp: u)
        next
          case True
          note ok = this
          show ?thesis
          proof (cases "d > 30 * Microsecond")
            case True
            show ?thesis
            proof (cases "0 \<le> n \<and> n < int (length b)")
              case False
              then show ?thesis using L D ok True by (auto simp: u)
            next
              case inr: True
              have "highLoop L D (i + 2) e (b[nat n := 1, nat k := x]) (n + 1) =
                (case highLoop L D (i + 2) e (b[nat n := 1]) (n + 1) of
                   Done (Inr bits) \<Rightarrow> Done (Inr (bits[nat k := x])) | r \<Rightarrow> r)"
                using "1.IH"(1) [OF \<open>i < e\<close> L _ D _ True inr] ok "1.prems" by simp
              then show ?thesis using L D ok True inr by (simp add: u swap)
            qed
          next
            case False
            have "highLoop L D (i + 2) e (b[nat k := x]) (n + 1) =
                (case highLoop L D (i + 2) e b (n + 1) of
                   Done (Inr bits) \<Rightarrow> Done (Inr (bits[nat k := x])) | r \<Rightarrow> r)"
              using "1.IH"(2) [OF \<open>i < e\<close> L _ D _ False] ok "1.prems" by simp
            then show ?thesis using L D ok False by (simp add: u)
          qed
        qed
      qed
    qed
  qed
qed

lemma highLoop_untouched:
  "highLoop L D i e b n = Done (Inr bits) \<Longrightarrow> 0 \<le> k \<Longrightarrow> k < n \<Longrightarrow>
   bits ! nat k = b ! nat k \<and> length bits = length b"
proof (induction L D i e b n rule: highLoop.induct)
  case (1 L D i e b n)
  show ?case
  proof (cases "i < e")
    case False
    then show ?thesis using "1.prems" by (simp add: highLoop.simps)
  next
    case True
    obtain d where s: "sliceAt L i = Some High" "sliceAt D i = Some d" "d \<le> 90 * Microsecond"
      and r: "if d > 30 * Microsecond
        then 0 \<le> n \<and> n < int (length b) \<and>
             highLoop L D (i + 2) e (b[nat n := 1]) (n + 1) = Done (Inr bits)
        else highLoop L D (i + 2) e b (n + 1) = Done (Inr bits)"
      using highLoop_step [OF "1.prems"(1) True] by blast
    have nk: "nat k \<noteq> nat n" using "1.prems" by simp
    show ?thesis
    proof (cases "d > 30 * Microsecond")
      case True
      have inr: "0 \<le> n \<and> n < int (length b)" and
        rr: "highLoop L D (i + 2) e (b[nat n := 1]) (n + 1) = Done (Inr bits)"
        using r True by simp_all
      have "bits ! nat k = (b[nat n := 1]) ! nat k \<and> length bits = length (b[nat n := 1])"
        using "1.IH"(1) [OF \<open>i < e\<close> s(1) _ s(2) _ True inr rr] s(3) "1.prems" by simp
      then show ?thesis using nk by simp
    next
      case False
      have rr: "highLoop L D (i + 2) e b (n + 1) = Done (Inr bits)"
        using r False by simp
      show ?thesis
        using "1.IH"(2) [OF \<open>i < e\<close> s(1) _ s(2) _ False rr] s(3) "1.prems" by simp
    qed
  qed
qed

text \<open>
  The effect on a successful run of the high loop of replacing the duration of one
  of its pulses by \<open>v\<close>.
\<close>

lemma sliceAt_nonneg: "sliceAt xs i = Some x \<Longrightarrow> 0 \<le> i \<and> i < int (length xs)"
  by (simp add: sliceAt_def split: if_splits)

lemma highLoop_after_update:
  assumes "0 \<le> j" "j < i"
  shows "highLoop L (D[nat j := v]) i e b n = highLoop L D i e b n"
proof -
  have "highLoop L (D[nat j := v]) (i - 0) (e - 0) b n = highLoop L D i e b n"
    by (rule highLoop_shift) (use assms in \<open>simp add: sliceAt_update\<close>)
  then show ?thesis by simp
qed

lemma highLoop_update:
  assumes "highLoop L D i e b n = Done (Inr bits)"
    and "i \<le> j" "j < e" "even (j - i)"
    and "0 \<le> n" "n + (j - i) div 2 < int (length b)"
  shows "highLoop L (D[nat j := v]) i e b n =
     (if v > 90 * Microsecond then Done (Inl (HighTooLong v))
      else Done (Inr (bits[nat (n + (j - i) div 2) :=
             (if v > 30 * Microsecond then 1 else b ! nat (n + (j - i) div 2))])))"
  using assms
proof (induction L D i e b n rule: highLoop.induct)
  case (1 L D i e b n)
  have lt: "i < e" using "1.prems" by simp
  obtain d where sL: "sliceAt L i = Some High" and sD: "sliceAt D i = Some d"
      and d90: "d \<le> 90 * Microsecond"
      and r: "if d > 30 * Microsecond
        then 0 \<le> n \<and> n < int (length b) \<and>
             highLoop L D (i + 2) e (b[nat n := 1]) (n + 1) = Done (Inr bits)
        else highLoop L D (i + 2) e b (n + 1) = Done (Inr bits)"
    using highLoop_step [OF "1.prems"(1) lt] by blast
  have i0: "0 \<le> i" "i < int (length D)" using sliceAt_nonneg [OF sD] by simp_all
  have j0: "0 \<le> j" using i0 "1.prems" by simp
  note u = highLoop_unfold [OF lt, of L "D[nat j := v]" b n]
  show ?case
  proof (cases "i = j")
    case True
    have sD': "sliceAt (D[nat j := v]) i = Some v"
      using True i0 by (simp add: sliceAt_update)
    have m: "n + (j - i) div 2 = n" using True by simp
    have inr: "0 \<le> n \<and> n < int (length b)" using "1.prems" m by simp
    have tail: "highLoop L (D[nat j := v]) (i + 2) e bb (n + 1) = highLoop L D (i + 2) e bb (n + 1)"
      for bb by (rule highLoop_after_update) (use True j0 in simp_all)
    show ?thesis
    proof (cases "v > 90 * Microsecond")
      case True
      then show ?thesis using sL sD' by (simp add: u)
    next
      case v90: False
      show ?thesis
      proof (cases "v > 30 * Microsecond")
        case True
        have "highLoop L D (i + 2) e (b[nat n := 1]) (n + 1) = Done (Inr (bits[nat n := 1]))"
        proof (cases "d > 30 * Microsecond")
          case True
          then have rr: "highLoop L D (i + 2) e (b[nat n := 1]) (n + 1) = Done (Inr bits)"
            using r by simp
          have "bits ! nat n = (b[nat n := 1]) ! nat n \<and> length bits = length (b[nat n := 1])"
            by (rule highLoop_untouched [OF rr]) (use inr in simp_all)
          then have "bits[nat n := 1] = bits"
            using inr by (metis list_update_id nat_less_iff nth_list_update_eq)
          then show ?thesis using rr by simp
        next
          case False
          then have rr: "highLoop L D (i + 2) e b (n + 1) = Done (Inr bits)"
            using r by simp
          show ?thesis
            using highLoop_bits_update [of n "n + 1" L D "i + 2" e b 1] inr rr by simp
        qed
        then show ?thesis using sL sD' v90 True inr by (simp add: u tail m)
      next
        case False
        have "highLoop L D (i + 2) e b (n + 1) = Done (Inr (bits[nat n := b ! nat n]))"
        proof (cases "d > 30 * Microsecond")
          case True
          then have rr: "highLoop L D (i + 2) e (b[nat n := 1]) (n + 1) = Done (Inr bits)"
            using r by simp
          have "highLoop L D (i + 2) e (b[nat n := 1, nat n := b ! nat n]) (n + 1) =
              Done (Inr (bits[nat n := b ! nat n]))"
            using highLoop_bits_update [of n "n + 1" L D "i + 2" e "b[nat n := 1]" "b ! nat n"]
              inr rr by simp
          then show ?thesis by simp
        next
          case False
          then have rr: "highLoop L D (i + 2) e b (n + 1) = Done (Inr bits)"
            using r by simp
          have "bits ! nat n = b ! nat n \<and> length bits = length b"
            by (rule highLoop_untouched [OF rr]) (use inr in simp_all)
          then have "bits[nat n := b ! nat n] = bits"
            by (metis list_update_id)
          then show ?thesis using rr by simp
        qed
        then show ?thesis using sL sD' v90 False by (simp add: u tail m)
      qed
    qed
  next
    case False
    then have ij: "i + 2 \<le> j" using "1.prems" by presburger
    have sD': "sliceAt (D[nat j := v]) i = Some d"
      using False j0 sD by (simp add: sliceAt_update)
    have m: "n + 1 + (j - (i + 2)) div 2 = n + (j - i) div 2" using ij by simp
    have ev: "even (j - (i + 2))" using "1.prems" by simp
    have mn: "nat (n + (j - i) div 2) \<noteq> nat n" using ij "1.prems" by simp
    show ?thesis
    proof (cases "d > 30 * Microsecond")
      case True
      have inr: "0 \<le> n \<and> n < int (length b)" and
        rr: "highLoop L D (i + 2) e (b[nat n := 1]) (n + 1) = Done (Inr bits)"
        using r True by simp_all
      have "highLoop L (D[nat j := v]) (i + 2) e (b[nat n := 1]) (n + 1) =
         (if v > 90 * Microsecond then Done (Inl (HighTooLong v))
          else Done (Inr (bits[nat (n + 1 + (j - (i + 2)) div 2) :=
             (if v > 30 * Microsecond then 1
              else (b[nat n := 1]) ! nat (n + 1 + (j - (i + 2)) div 2))])))"
        by (rule "1.IH"(1) [OF lt sL _ sD _ True inr rr ij _ ev])
          (use d90 "1.prems" m in simp_all)
      then show ?thesis
        using sL sD' d90 True inr mn by (simp add: u m)
    next
      case False
      have rr: "highLoop L D (i + 2) e b (n + 1) = Done (Inr bits)"
        using r False by simp
      have "highLoop L (D[nat j := v]) (i + 2) e b (n + 1) =
         (if v > 90 * Microsecond then Done (Inl (HighTooLong v))
          else Done (Inr (bits[nat (n + 1 + (j - (i + 2)) div 2) :=
             (if v > 30 * Microsecond then 1
              else b ! nat (n + 1 + (j - (i + 2)) div 2))])))"
        by (rule "1.IH"(2) [OF lt sL _ sD _ False rr ij _ ev])
          (use d90 "1.prems" m in simp_all)
      then show ?thesis
        using sL sD' d90 False by (simp add: u m)
    qed
  qed
qed

lemma lowLoop_unfold:
  "i < e \<Longrightarrow> lowLoop L D i e =
        (case sliceAt L i of
           None \<Rightarrow> Panic
         | Some l \<Rightarrow>
             if l \<noteq> Low then Done (Some LevelNotLow)
             else
               (case sliceAt D i of
                  None \<Rightarrow> Panic
                | Some d \<Rightarrow>
                    if d > 70 * Microsecond then Done (Some (LowTooLong d))
                    else if d < 35 * Microsecond then Done (Some (LowTooShort d))
                    else lowLoop L D (i + 2) e))"
  by (subst lowLoop.simps) simp

lemma lowLoop_step:
  assumes base: "lowLoop L D i e = Done None" and lt: "i < e"
  shows "\<exists>d. sliceAt L i = Some Low \<and> sliceAt D i = Some d \<and> d \<le> 70 * Microsecond \<and>
     35 * Microsecond \<le> d \<and> lowLoop L D (i + 2) e = Done None"
proof -
  note u = base [unfolded lowLoop_unfold [OF lt]]
  obtain l where l: "sliceAt L i = Some l" using u by (cases "sliceAt L i") auto
  have h: "l = Low" using u l by (cases "l = Low") auto
  obtain d where d: "sliceAt D i = Some d" using u l h by (cases "sliceAt D i") auto
  have d70: "d \<le> 70 * Microsecond" using u l h d by (cases "d > 70 * Microsecond") auto
  have d35: "35 * Microsecond \<le> d" using u l h d d70 by (cases "d < 35 * Microsecond") auto
  show ?thesis using u l h d d70 d35 by auto
qed

lemma lowLoop_after_update:
  assumes "0 \<le> j" "j < i"
  shows "lowLoop L (D[nat j := v]) i e = lowLoop L D i e"
proof -
  have "lowLoop L (D[nat j := v]) (i - 0) (e - 0) = lowLoop L D i e"
    by (rule lowLoop_shift) (use assms in \<open>simp add: sliceAt_update\<close>)
  then show ?thesis by simp
qed

lemma lowLoop_update:
  assumes "lowLoop L D i e = Done None"
    and "i \<le> j" "j < e" "even (j - i)"
  shows "lowLoop L (D[nat j := v]) i e =
     (if v > 70 * Microsecond then Done (Some (LowTooLong v))
      else if v < 35 * Microsecond then Done (Some (LowTooShort v))
      else Done None)"
  using assms
proof (induction L D i e rule: lowLoop.induct)
  case (1 L D i e)
  have lt: "i < e" using "1.prems" by simp
  obtain d where sL: "sliceAt L i = Some Low" and sD: "sliceAt D i = Some d"
      and d70: "d \<le> 70 * Microsecond" and d35: "35 * Microsecond \<le> d"
      and r: "lowLoop L D (i + 2) e = Done None"
    using lowLoop_step [OF "1.prems"(1) lt] by blast
  have i0: "0 \<le> i" "i < int (length D)" using sliceAt_nonneg [OF sD] by simp_all
  have j0: "0 \<le> j" using i0 "1.prems" by simp
  note u = lowLoop_unfold [OF lt, of L "D[nat j := v]"]
  show ?case
  proof (cases "i = j")
    case True
    have sD': "sliceAt (D[nat j := v]) i = Some v"
      using True i0 by (simp add: sliceAt_update)
    have tail: "lowLoop L (D[nat j := v]) (i + 2) e = lowLoop L D (i + 2) e"
      by (rule lowLoop_after_update) (use True j0 in simp_all)
    show ?thesis using sL sD' r by (simp add: u tail)
  next
    case False
    then have ij: "i + 2 \<le> j" using "1.prems" by presburger
    have sD': "sliceAt (D[nat j := v]) i = Some d"
      using False j0 sD by (simp add: sliceAt_update)
    have ev: "even (j - (i + 2))" using "1.prems" by simp
    have "lowLoop L (D[nat j := v]) (i + 2) e =
       (if v > 70 * Microsecond then Done (Some (LowTooLong v))
        else if v < 35 * Microsecond then Done (Some (LowTooShort v))
        else Done None)"
      by (rule "1.IH" [OF lt sL _ sD _ _ r ij _ ev]) (use d70 d35 "1.prems" in simp_all)
    then show ?thesis using sL sD' d70 d35 by (simp add: u)
  qed
qed

text \<open>A change at an index of the other parity is not seen by a loop.\<close>

lemma highLoop_other_parity:
  assumes "0 \<le> j" "odd (j - i)"
  shows "highLoop L (D[nat j := v]) i e b n = highLoop L D i e b n"
proof -
  have "highLoop L (D[nat j := v]) (i - 0) (e - 0) b n = highLoop L D i e b n"
    by (rule highLoop_shift) (use assms in \<open>auto simp: sliceAt_update\<close>)
  then show ?thesis by simp
qed

lemma lowLoop_other_parity:
  assumes "0 \<le> j" "odd (j - i)"
  shows "lowLoop L (D[nat j := v]) i e = lowLoop L D i e"
proof -
  have "lowLoop L (D[nat j := v]) (i - 0) (e - 0) = lowLoop L D i e"
    by (rule lowLoop_shift) (use assms in \<open>auto simp: sliceAt_update\<close>)
  then show ?thesis by simp
qed

lemma highLoop_not_missing: "highLoop L D i e b n \<noteq> Done (Inl MissingLowLevel)"
proof (induction L D i e b n rule: highLoop.induct)
  case (1 L D i e b n)
  show ?case
  proof (cases "i < e")
    case False
    then show ?thesis by (simp add: highLoop.simps)
  next
    case True
    show ?thesis
      using "1.IH" True
      by (auto simp: highLoop_unfold [OF True] split: option.splits)
  qed
qed

lemma lowLoop_not_missing: "lowLoop L D i e \<noteq> Done (Some MissingLowLevel)"
proof (induction L D i e rule: lowLoop.induct)
  case (1 L D i e)
  show ?case
  proof (cases "i < e")
    case False
    then show ?thesis by (simp add: lowLoop.simps)
  next
    case True
    show ?thesis
      using "1.IH" True
      by (auto simp: lowLoop_unfold [OF True] split: option.splits)
  qed
qed

lemma decodePulses_end:
  assumes "length L = 84" and "findLastLow L 83 = Done (Inr e)"
  shows "decodePulses L D =
     (case highLoop L D (e - 79) e (replicate 40 0) 0 of
        Panic \<Rightarrow> Panic
      | Done (Inl err) \<Rightarrow> Done (Inl err)
      | Done (Inr bits) \<Rightarrow>
          (case lowLoop L D (e - 78) (e + 1) of
             Panic \<Rightarrow> Panic
           | Done (Some err) \<Rightarrow> Done (Inl err)
           | Done None \<Rightarrow> Done (Inr bits)))"
proof -
  have a: "e - 79 + 1 = e - 78" by simp
  have b: "int (length L) - 1 = 83" using assms by simp
  show ?thesis
    unfolding decodePulses_def b assms(2)
    by (simp add: Let_def a split: outcome.split sum.split option.split)
qed

lemma decodePulses_accepted:
  assumes "length L = 84" and "findLastLow L 83 = Done (Inr e)"
    and "decodePulses L D = Done (Inr bits)"
  shows "highLoop L D (e - 79) e (replicate 40 0) 0 = Done (Inr bits) \<and>
    lowLoop L D (e - 78) (e + 1) = Done None"
  using assms(3) unfolding decodePulses_end [OF assms(1,2)]
  by (auto split: outcome.splits sum.splits option.splits)

lemma findLastLow_range:
  assumes "length L = 84" and "findLastLow L 83 = Done (Inr e)"
  shows "79 \<le> e \<and> e \<le> 83"
  using assms(2) unfolding findLastLow_84 [OF assms(1)] by (auto split: if_splits)

lemma decodePulses_high_duration:
  assumes len: "length L = 84" and fl: "findLastLow L 83 = Done (Inr e)"
    and base: "decodePulses L D = Done (Inr bits)" and k: "k < 40"
  shows "decodePulses L (D[nat (e - 79) + 2 * k := v]) =
     (if v > 90 * Microsecond then Done (Inl (HighTooLong v))
      else Done (Inr (bits[k := (if v > 30 * Microsecond then 1 else 0)])))"
proof -
  have e: "79 \<le> e \<and> e \<le> 83" by (rule findLastLow_range [OF len fl])
  define j where "j = e - 79 + 2 * int k"
  have nj: "nat (e - 79) + 2 * k = nat j" using e unfolding j_def by linarith
  have hb: "highLoop L D (e - 79) e (replicate 40 0) 0 = Done (Inr bits)"
    and lb: "lowLoop L D (e - 78) (e + 1) = Done None"
    using decodePulses_accepted [OF len fl base] by simp_all
  have "highLoop L (D[nat j := v]) (e - 79) e (replicate 40 0) 0 =
     (if v > 90 * Microsecond then Done (Inl (HighTooLong v))
      else Done (Inr (bits[nat (0 + (j - (e - 79)) div 2) :=
             (if v > 30 * Microsecond then 1
              else replicate 40 0 ! nat (0 + (j - (e - 79)) div 2))])))"
    by (rule highLoop_update [OF hb]) (use k in \<open>simp_all add: j_def\<close>)
  then have h: "highLoop L (D[nat j := v]) (e - 79) e (replicate 40 0) 0 =
     (if v > 90 * Microsecond then Done (Inl (HighTooLong v))
      else Done (Inr (bits[k := (if v > 30 * Microsecond then 1 else 0)])))"
    using k by (simp add: j_def)
  have l: "lowLoop L (D[nat j := v]) (e - 78) (e + 1) = Done None"
    unfolding lb [symmetric]
    by (rule lowLoop_other_parity) (use e in \<open>simp_all add: j_def\<close>)
  show ?thesis
    unfolding nj decodePulses_end [OF len fl] by (simp add: h l)
qed

lemma decodePulses_low_duration:
  assumes len: "length L = 84" and fl: "findLastLow L 83 = Done (Inr e)"
    and base: "decodePulses L D = Done (Inr bits)" and k: "k < 40"
  shows "decodePulses L (D[Suc (nat (e - 79) + 2 * k) := v]) =
     (if v > 70 * Microsecond then Done (Inl (LowTooLong v))
      else if v < 35 * Microsecond then Done (Inl (LowTooShort v))
      else Done (Inr bits))"
proof -
  have e: "79 \<le> e \<and> e \<le> 83" by (rule findLastLow_range [OF len fl])
  define j where "j = e - 78 + 2 * int k"
  have nj: "Suc (nat (e - 79) + 2 * k) = nat j" using e unfolding j_def by linarith
  have hb: "highLoop L D (e - 79) e (replicate 40 0) 0 = Done (Inr bits)"
    and lb: "lowLoop L D (e - 78) (e + 1) = Done None"
    using decodePulses_accepted [OF len fl base] by simp_all
  have h: "highLoop L (D[nat j := v]) (e - 79) e (replicate 40 0) 0 = Done (Inr bits)"
    unfolding hb [symmetric]
    by (rule highLoop_other_parity) (use e in \<open>simp_all add: j_def\<close>)
  have l: "lowLoop L (D[nat j := v]) (e - 78) (e + 1) =
     (if v > 70 * Microsecond then Done (Some (LowTooLong v))
      else if v < 35 * Microsecond then Done (Some (LowTooShort v))
      else Done None)"
    by (rule lowLoop_update [OF lb]) (use k in \<open>simp_all add: j_def\<close>)
  show ?thesis
    unfolding nj decodePulses_end [OF len fl] by (simp add: h l)
qed

text \<open>
  Claim C5.  Take any capture of 84 pulses that the decoder accepts, and any of
  its 40 bits.  With the duration of the high pulse of that bit replaced, the
  decoder gives bit 0 for exactly 30 us and bit 1 for 31 us, accepts 90 us (as
  bit 1) and fails with the high-too-long error for 91 us.  With the duration of
  the low pulse that follows it replaced, the decoder accepts 35 us and 70 us
  with the same bits, fails with the low-too-short error for 34 us and with the
  low-too-long error for 71 us.
\<close>

theorem decode_duration_boundaries:
  assumes "length levels = 84"
    and "findLastLow levels 83 = Done (Inr endNumber)"
    and "decodePulses levels durations = Done (Inr bits)"
    and "k < 40"
  shows "let hi = nat (endNumber - 79) + 2 * k; lo = nat (endNumber - 79) + 2 * k + 1 in
     decodePulses levels (durations[hi := 30 * Microsecond]) = Done (Inr (bits[k := 0])) \<and>
     decodePulses levels (durations[hi := 31 * Microsecond]) = Done (Inr (bits[k := 1])) \<and>
     decodePulses levels (durations[hi := 90 * Microsecond]) = Done (Inr (bits[k := 1])) \<and>
     decodePulses levels (durations[hi := 91 * Microsecond]) =
       Done (Inl (HighTooLong (91 * Microsecond))) \<and>
     decodePulses levels (durations[lo := 35 * Microsecond]) = Done (Inr bits) \<and>
     decodePulses levels (durations[lo := 34 * Microsecond]) =
       Done (Inl (LowTooShort (34 * Microsecond))) \<and>
     decodePulses levels (durations[lo := 70 * Microsecond]) = Done (Inr bits) \<and>
     decodePulses levels (durations[lo := 71 * Microsecond]) =
       Done (Inl (LowTooLong (71 * Microsecond)))"
  unfolding Let_def
  by (simp add: decodePulses_high_duration [OF assms] decodePulses_low_duration [OF assms]
      Microsecond_def)

theorem decode_duration_boundaries_witness:
  "length txLevels = 84 \<and> findLastLow txLevels 83 = Done (Inr 83) \<and>
   decodePulses txLevels (txDurations frameGood) = Done (Inr frameGood) \<and>
   decodePulses txLevels ((txDurations frameGood)[18 := 30 * Microsecond]) =
     Done (Inr (frameGood[7 := 0])) \<and>
   decodePulses txLevels ((txDurations frameGood)[18 := 31 * Microsecond]) =
     Done (Inr (frameGood[7 := 1])) \<and>
   decodePulses txLevels ((txDurations frameGood)[18 := 91 * Microsecond]) =
     Done (Inl (HighTooLong (91 * Microsecond))) \<and>
   decodePulses txLevels ((txDurations frameGood)[19 := 34 * Microsecond]) =
     Done (Inl (LowTooShort (34 * Microsecond))) \<and>
   decodePulses txLevels ((txDurations frameGood)[19 := 71 * Microsecond]) =
     Done (Inl (LowTooLong (71 * Microsecond)))"
proof -
  have h1: "length txLevels = 84" by code_simp
  have h2: "findLastLow txLevels 83 = Done (Inr 83)" by code_simp
  have h3: "decodePulses txLevels (txDurations frameGood) = Done (Inr frameGood)" by code_simp
  have h4: "(7::nat) < 40" by simp
  show ?thesis
    using decode_duration_boundaries [OF h1 h2 h3 h4] h1 h2 h3 by (simp add: Let_def)
qed

lemma findLastLow_missing:
  assumes "length L = 84"
  shows "(findLastLow L 83 = Done (Inl MissingLowLevel)) = (\<forall>i. 79 \<le> i \<and> i < 84 \<longrightarrow> L ! i \<noteq> Low)"
proof
  assume "findLastLow L 83 = Done (Inl MissingLowLevel)"
  then have n: "L ! 83 \<noteq> Low" "L ! 82 \<noteq> Low" "L ! 81 \<noteq> Low" "L ! 80 \<noteq> Low" "L ! 79 \<noteq> Low"
    unfolding findLastLow_84 [OF assms] by (auto split: if_splits)
  show "\<forall>i. 79 \<le> i \<and> i < 84 \<longrightarrow> L ! i \<noteq> Low"
  proof (intro allI impI)
    fix i :: nat
    assume "79 \<le> i \<and> i < 84"
    then have "i = 79 \<or> i = 80 \<or> i = 81 \<or> i = 82 \<or> i = 83" by linarith
    then show "L ! i \<noteq> Low" using n by auto
  qed
next
  assume "\<forall>i. 79 \<le> i \<and> i < 84 \<longrightarrow> L ! i \<noteq> Low"
  then show "findLastLow L 83 = Done (Inl MissingLowLevel)"
    unfolding findLastLow_84 [OF assms] by simp
qed

lemma findLastLow_found:
  assumes "length L = 84" and "79 \<le> e" "e < 84" and "L ! e = Low"
    and "\<forall>i. e < i \<and> i < 84 \<longrightarrow> L ! i \<noteq> Low"
  shows "findLastLow L 83 = Done (Inr (int e))"
proof -
  have "e = 79 \<or> e = 80 \<or> e = 81 \<or> e = 82 \<or> e = 83" using assms(2,3) by linarith
  then show ?thesis
    unfolding findLastLow_84 [OF assms(1)] using assms(4,5) by auto
qed

lemma decodePulses_missing:
  assumes "length L = 84"
  shows "(decodePulses L D = Done (Inl MissingLowLevel)) =
         (findLastLow L 83 = Done (Inl MissingLowLevel))"
proof (cases "findLastLow L 83")
  case Panic
  then show ?thesis using assms by (simp add: decodePulses_def)
next
  case (Done r)
  show ?thesis
  proof (cases r)
    case (Inl err)
    then show ?thesis using Done assms by (simp add: decodePulses_def)
  next
    case (Inr e)
    have fl: "findLastLow L 83 = Done (Inr e)" using Done Inr by simp
    have "decodePulses L D \<noteq> Done (Inl MissingLowLevel)"
      unfolding decodePulses_end [OF assms fl]
      using highLoop_not_missing [of L D "e - 79" e "replicate 40 0" 0]
        lowLoop_not_missing [of L D "e - 78" "e + 1"]
      by (auto split: outcome.splits sum.splits option.splits)
    then show ?thesis using fl by simp
  qed
qed

lemma decodePulses_window:
  assumes lenL: "length L = 84" and lenD: "length D = 84"
    and fl: "findLastLow L 83 = Done (Inr (int e))" and e: "79 \<le> e" "e < 84"
    and low: "L ! e = Low"
  shows "decodePulses L D =
     decodePulses (take 80 (drop (e - 79) L)) (take 80 (drop (e - 79) D))"
proof -
  let ?s = "int e - 79"
  let ?L = "take 80 (drop (e - 79) L)" and ?D = "take 80 (drop (e - 79) D)"
  have ns: "nat ?s = e - 79" using e by simp
  have wL: "sliceAt ?L (t - ?s) = sliceAt L t" if "?s \<le> t" "t < ?s + 80" for t
    using sliceAt_window [of ?s 80 L t] that e lenL by (simp add: ns)
  have wD: "sliceAt ?D (t - ?s) = sliceAt D t" if "?s \<le> t" "t < ?s + 80" for t
    using sliceAt_window [of ?s 80 D t] that e lenD by (simp add: ns)
  have len: "length ?L = 80" using e lenL by simp
  have "sliceAt ?L 79 = Some Low"
    using wL [of "int e"] e lenL low by (simp add: sliceAt_def)
  then have fl': "findLastLow ?L 79 = Done (Inr 79)"
    by (subst findLastLow.simps) simp
  have h: "highLoop ?L ?D (?s - ?s) (int e - ?s) (replicate 40 0) 0 =
      highLoop L D ?s (int e) (replicate 40 0) 0"
    by (rule highLoop_shift) (use wL wD in auto)
  have l: "lowLoop ?L ?D (int e - 78 - ?s) (int e + 1 - ?s) = lowLoop L D (int e - 78) (int e + 1)"
    by (rule lowLoop_shift) (use wL wD in auto)
  have a: "(79::int) - 79 + 1 = 1" by simp
  have b: "int (length ?L) - 1 = 79" using len by simp
  have "decodePulses ?L ?D =
     (case highLoop ?L ?D 0 79 (replicate 40 0) 0 of
        Panic \<Rightarrow> Panic
      | Done (Inl err) \<Rightarrow> Done (Inl err)
      | Done (Inr bits) \<Rightarrow>
          (case lowLoop ?L ?D 1 80 of
             Panic \<Rightarrow> Panic
           | Done (Some err) \<Rightarrow> Done (Inl err)
           | Done None \<Rightarrow> Done (Inr bits)))"
    unfolding decodePulses_def b fl'
    by (simp add: Let_def a split: outcome.split sum.split option.split)
  moreover have "highLoop ?L ?D 0 79 (replicate 40 0) 0 =
      highLoop L D ?s (int e) (replicate 40 0) 0"
    using h by simp
  moreover have "lowLoop ?L ?D 1 80 = lowLoop L D (int e - 78) (int e + 1)"
    using l by simp
  ultimately show ?thesis
    unfolding decodePulses_end [OF lenL fl]
    by (simp cong: outcome.case_cong sum.case_cong option.case_cong)
qed

text \<open>
  Claim C6, as the code has it.  The backward search also looks at index 79: its
  comment says that it gives up when the last low level is at 78 or below.  So for
  every capture of 84 pulses the decoder fails with the missing-low-level error
  exactly when no low pulse stands at an index from 79 on; otherwise the last low
  index \<open>e\<close> is the end of the data, and the result is that of decoding the 80
  pulses at the indices \<open>e - 79\<close> to \<open>e\<close> alone.
\<close>

theorem missing_low_level_below_79:
  assumes "length levels = 84" and "length durations = 84"
  shows "(decodePulses levels durations = Done (Inl MissingLowLevel)) =
           (\<forall>i. 79 \<le> i \<and> i < 84 \<longrightarrow> levels ! i \<noteq> Low) \<and>
         (\<forall>e. 79 \<le> e \<and> e < 84 \<and> levels ! e = Low \<and> (\<forall>i. e < i \<and> i < 84 \<longrightarrow> levels ! i \<noteq> Low)
            \<longrightarrow> findLastLow levels 83 = Done (Inr (int e)) \<and>
                decodePulses levels durations =
                  decodePulses (take 80 (drop (e - 79) levels)) (take 80 (drop (e - 79) durations)))"
proof (intro conjI allI impI)
  show "(decodePulses levels durations = Done (Inl MissingLowLevel)) =
           (\<forall>i. 79 \<le> i \<and> i < 84 \<longrightarrow> levels ! i \<noteq> Low)"
    by (simp only: decodePulses_missing [OF assms(1)] findLastLow_missing [OF assms(1)])
next
  fix e
  assume a: "79 \<le> e \<and> e < 84 \<and> levels ! e = Low \<and> (\<forall>i. e < i \<and> i < 84 \<longrightarrow> levels ! i \<noteq> Low)"
  then show fl: "findLastLow levels 83 = Done (Inr (int e))"
    by (intro findLastLow_found [OF assms(1)]) auto
  show "decodePulses levels durations =
      decodePulses (take 80 (drop (e - 79) levels)) (take 80 (drop (e - 79) durations))"
    by (rule decodePulses_window [OF assms fl]) (use a in auto)
qed

theorem missing_low_level_below_79_witness:
  "length lateLevels = 84 \<and> length (lateDurations frameGood) = 84 \<and> lateLevels ! 79 = Low \<and>
   findLastLow lateLevels 83 = Done (Inr 79) \<and>
   decodePulses lateLevels (lateDurations frameGood) =
     decodePulses (take 80 lateLevels) (take 80 (lateDurations frameGood)) \<and>
   decodePulses (replicate 84 High) (replicate 84 1000200) = Done (Inl MissingLowLevel)"
proof -
  have h1: "length lateLevels = 84" by code_simp
  have h2: "length (lateDurations frameGood) = 84" by code_simp
  have low: "lateLevels ! 79 = Low" by code_simp
  have n: "lateLevels ! 80 \<noteq> Low" "lateLevels ! 81 \<noteq> Low" "lateLevels ! 82 \<noteq> Low"
    "lateLevels ! 83 \<noteq> Low" by code_simp+
  have after: "\<forall>i. 79 < i \<and> i < 84 \<longrightarrow> lateLevels ! i \<noteq> Low"
  proof (intro allI impI)
    fix i :: nat
    assume "79 < i \<and> i < 84"
    then have "i = 80 \<or> i = 81 \<or> i = 82 \<or> i = 83" by linarith
    then show "lateLevels ! i \<noteq> Low" using n by auto
  qed
  from missing_low_level_below_79 [OF h1 h2] have "79 \<le> (79::nat) \<and> (79::nat) < 84 \<and> lateLevels ! 79 = Low \<and>
      (\<forall>i. 79 < i \<and> i < 84 \<longrightarrow> lateLevels ! i \<noteq> Low)
      \<longrightarrow> findLastLow lateLevels 83 = Done (Inr (int 79)) \<and>
          decodePulses lateLevels (lateDurations frameGood) =
            decodePulses (take 80 (drop (79 - 79) lateLevels))
              (take 80 (drop (79 - 79) (lateDurations frameGood)))"
    by blast
  with low after have A: "findLastLow lateLevels 83 = Done (Inr 79) \<and>
      decodePulses lateLevels (lateDurations frameGood) =
        decodePulses (take 80 lateLevels) (take 80 (lateDurations frameGood))"
    by simp
  have "(decodePulses (replicate 84 High) (replicate 84 1000200) = Done (Inl MissingLowLevel)) =
      (\<forall>i. 79 \<le> i \<and> i < 84 \<longrightarrow> replicate 84 High ! i \<noteq> Low)"
    using missing_low_level_below_79 [of "replicate 84 High" "replicate 84 1000200"] by simp
  then have B: "decodePulses (replicate 84 High) (replicate 84 1000200) = Done (Inl MissingLowLevel)"
    by simp
  show ?thesis using h1 h2 low A B by simp
qed

text \<open>
  A capture whose last low pulse is at index 79, with the idle line in the slots 80
  to 83, has no low pulse at an index of 80 or more, and is decoded.
\<close>

theorem low_at_79_is_accepted:
  "length lateLevels = 84 \<and> length (lateDurations frameGood) = 84 \<and>
   Low \<notin> set (drop 80 lateLevels) \<and>
   decodePulses lateLevels (lateDurations frameGood) = Done (Inr frameGood) \<and>
   decodePulses lateLevels (lateDurations frameGood) \<noteq> Done (Inl MissingLowLevel)"
  by code_simp

section \<open>The start of a capture attempt\<close>

text \<open>
  Whatever the pin does, readBits first stores the clock in \<open>lastRead\<close> and only
  then drives the pin low; it is one more capture attempt.
\<close>

lemma readBits_start:
  "\<exists>r dht' w' rest. readBits dht w = (r, dht', w') \<and> dht' = dht\<lparr>lastRead := clock w\<rparr> \<and>
     nread w' = nread w + 1 \<and>
     trace w' = trace w @ SetLastRead (clock w) # PinOut Low # rest"
  by (simp add: readBits_def Let_def emit_def sleep_def split: option.split prod.split)

lemma Read_start:
  "\<exists>r dht' w' rest. Read dht w = (r, dht', w') \<and>
     dht' = dht\<lparr>lastRead := clock w + max 0 (sleepTimeFor (numErrors dht) - (clock w - lastRead dht))\<rparr> \<and>
     nread w' = nread w + 1 \<and>
     trace w' = trace w @ Sleep (sleepTimeFor (numErrors dht) - (clock w - lastRead dht)) #
       SetLastRead (clock w + max 0 (sleepTimeFor (numErrors dht) - (clock w - lastRead dht))) #
       PinOut Low # rest"
proof -
  define st where "st = sleepTimeFor (numErrors dht) - (clock w - lastRead dht)"
  obtain r dht' w' rest where rb: "readBits dht (sleep st w) = (r, dht', w')"
    and d: "dht' = dht\<lparr>lastRead := clock (sleep st w)\<rparr>"
    and n: "nread w' = nread (sleep st w) + 1"
    and t: "trace w' = trace (sleep st w) @ SetLastRead (clock (sleep st w)) # PinOut Low # rest"
    using readBits_start [of dht "sleep st w"] by blast
  have "\<exists>r'. Read dht w = (r', dht', w')"
    using rb by (simp add: Read_def st_def split: outcome.split sum.split)
  then show ?thesis
    using d n t by (auto simp: st_def sleep_def emit_def)
qed

text \<open>
  Claim C8.  At the start of every capture attempt, before any pin operation and
  whatever the outcome of the attempt, \<open>lastRead\<close> is set to the current time: the
  handle that readBits returns holds the clock value of its entry, and the first
  effect that readBits adds to the trace is this assignment, followed by the first
  pin operation (driving the pin low).  The readBits of the Windows build, which
  has no pin, makes the same assignment and nothing else.
\<close>

theorem readBits_sets_lastRead_first:
  "(\<exists>r dht' w' rest. readBits dht w = (r, dht', w') \<and> lastRead dht' = clock w \<and>
      trace w' = trace w @ SetLastRead (clock w) # PinOut Low # rest) \<and>
   (\<exists>r dht' w'. readBitsWindows dht w = (r, dht', w') \<and> lastRead dht' = clock w \<and>
      trace w' = trace w @ [SetLastRead (clock w)])"
  using readBits_start [of dht w] by (auto simp: readBitsWindows_def emit_def)

section \<open>The waiting time of Read\<close>

text \<open>
  Claim C4.  Before each attempt Read computes the minimum interval
  \<open>min (2 s + n * 0.5 s) (30 s)\<close> from the count \<open>n\<close> of the handle, subtracts the
  time elapsed since \<open>lastRead\<close> and sleeps for the difference; as
  \<^verbatim>\<open>time.Sleep\<close> returns at once for a negative duration, the capture attempt
  starts \<open>max 0\<close> of the difference later.  Counts 0, 1 and 2 give 2.0 s, 2.5 s and
  3.0 s; from 56 on the interval is exactly 30 s, and it never exceeds 30 s.
\<close>

theorem Read_minimum_interval:
  "(0 \<le> n \<longrightarrow> sleepTimeFor n = min (2 * Second + n * (500 * Millisecond)) (30 * Second)) \<and>
   sleepTimeFor 0 = 2000 * Millisecond \<and> sleepTimeFor 1 = 2500 * Millisecond \<and>
   sleepTimeFor 2 = 3000 * Millisecond \<and>
   (56 \<le> n \<longrightarrow> sleepTimeFor n = 30 * Second) \<and> sleepTimeFor n \<le> 30 * Second \<and>
   (\<exists>rest. trace (snd (snd (Read dht w))) =
      trace w @ Sleep (sleepTimeFor (numErrors dht) - (clock w - lastRead dht)) #
      SetLastRead (clock w + max 0 (sleepTimeFor (numErrors dht) - (clock w - lastRead dht))) # rest)"
proof -
  have "\<exists>rest. trace (snd (snd (Read dht w))) =
      trace w @ Sleep (sleepTimeFor (numErrors dht) - (clock w - lastRead dht)) #
      SetLastRead (clock w + max 0 (sleepTimeFor (numErrors dht) - (clock w - lastRead dht))) # rest"
    using Read_start [of dht w] by auto
  then show ?thesis
    by (simp add: sleepTimeFor_def Second_def Millisecond_def)
qed

theorem Read_minimum_interval_witness:
  "sleepTimeFor 56 = min (2 * Second + 56 * (500 * Millisecond)) (30 * Second) \<and>
   sleepTimeFor 56 = 30 * Second \<and>
   (\<exists>rest. trace (snd (snd (Read newGeneric (goodWorld)))) =
      [Sleep 1000000000, SetLastRead 2000000000] @ rest)"
  using Read_minimum_interval [of 56 newGeneric "goodWorld"]
  by (simp add: newGeneric_def goodWorld_def worldWith_def sleepTimeFor_def Second_def
      Millisecond_def)

section \<open>The failure count of the handle\<close>

text \<open>No path of Read assigns \<open>numErrors\<close>.\<close>

lemma Read_numErrors_unchanged: "numErrors (fst (snd (Read dht w))) = numErrors dht"
  using Read_start [of dht w] by auto

text \<open>
  Claim C3.  The comment of Read says that each read error adds half a second to
  the sleep time, which needs the count of consecutive failures to go up by one at
  every failed call and back to 0 at a good one.  Read never writes the count: a
  fresh handle whose sensor does not answer fails with the missing-low-level error
  and still has the count 0.
\<close>

theorem Read_failure_keeps_numErrors:
  "case Read newGeneric (silentWorld) of
     (r, dht', w') \<Rightarrow>
       r = Done (0, 0, Some MissingLowLevel) \<and> numErrors newGeneric = 0 \<and> numErrors dht' = 0"
  by code_simp

section \<open>ReadRetry\<close>

lemma Read_nread: "nread (snd (snd (Read dht w))) = nread w + 1"
  using Read_start [of dht w] by auto

lemma ReadRetryLoop_nread:
  "nread (snd (snd (ReadRetryLoop i n r dht w))) \<le> nread w + nat (n - i)"
proof (induction i n r dht w rule: ReadRetryLoop.induct)
  case (1 i maxRetries r dht w)
  show ?case
  proof (cases "i < maxRetries")
    case False
    then show ?thesis by (simp add: ReadRetryLoop.simps)
  next
    case True
    obtain x dht' w' where R: "Read dht w = (x, dht', w')" by (cases "Read dht w") auto
    have n: "nread w' = nread w + 1" using Read_nread [of dht w] R by simp
    show ?thesis
    proof (cases x)
      case Panic
      then show ?thesis using True R n by (simp add: ReadRetryLoop.simps)
    next
      case (Done v)
      obtain h t e where v: "v = (h, t, e)" by (cases v) auto
      show ?thesis
      proof (cases e)
        case None
        then show ?thesis using True R n Done v by (simp add: ReadRetryLoop.simps)
      next
        case (Some a)
        have "nread (snd (snd (ReadRetryLoop (i + 1) maxRetries (h, t, Some a) dht' w')))
            \<le> nread w' + nat (maxRetries - (i + 1))"
          using "1.IH" [OF True R [symmetric]] Done v Some by simp
        moreover have "ReadRetryLoop i maxRetries r dht w =
            ReadRetryLoop (i + 1) maxRetries (h, t, Some a) dht' w'"
          using True R Done v Some by (subst ReadRetryLoop.simps) simp
        ultimately show ?thesis using n True by simp
      qed
    qed
  qed
qed

lemma ReadRetryLoop_first_success:
  "\<lbrakk>\<forall>j<k. failed (readResult j dht w); succeeded (readResult k dht w); i + int k < n\<rbrakk>
   \<Longrightarrow> ReadRetryLoop i n r dht w = (readResult k dht w, afterReads (Suc k) dht w)"
proof (induction k arbitrary: i r dht w)
  case 0
  obtain x dht' w' where R: "Read dht w = (x, dht', w')" by (cases "Read dht w") auto
  from 0 R have "succeeded x" by (simp add: readResult_def)
  then obtain h t where "x = Done (h, t, None)" by (cases x rule: succeeded.cases) auto
  then show ?case using 0 R by (subst ReadRetryLoop.simps) (simp add: readResult_def)
next
  case (Suc k)
  obtain x dht' w' where R: "Read dht w = (x, dht', w')" by (cases "Read dht w") auto
  from Suc.prems(1) have "failed (readResult 0 dht w)" by blast
  with R have "failed x" by (simp add: readResult_def)
  then obtain h t e where x: "x = Done (h, t, Some e)" by (cases x rule: failed.cases) auto
  have shift: "readResult j dht' w' = readResult (Suc j) dht w" for j
    using R by (simp add: readResult_def)
  have "ReadRetryLoop (i + 1) n (h, t, Some e) dht' w' =
      (readResult k dht' w', afterReads (Suc k) dht' w')"
  proof (rule Suc.IH)
    show "\<forall>j<k. failed (readResult j dht' w')" using Suc.prems(1) by (auto simp: shift)
    show "succeeded (readResult k dht' w')" using Suc.prems(2) by (simp add: shift)
    show "i + 1 + int k < n" using Suc.prems(3) by simp
  qed
  moreover have "ReadRetryLoop i n r dht w = ReadRetryLoop (i + 1) n (h, t, Some e) dht' w'"
    using Suc.prems(3) R x by (subst ReadRetryLoop.simps) simp
  ultimately show ?case using R by (simp add: shift)
qed

lemma ReadRetryLoop_all_fail:
  "\<lbrakk>\<forall>j<Suc m. failed (readResult j dht w); i + int (Suc m) = n\<rbrakk>
   \<Longrightarrow> ReadRetryLoop i n r dht w = (readResult m dht w, afterReads (Suc m) dht w)"
proof (induction m arbitrary: i r dht w)
  case 0
  obtain x dht' w' where R: "Read dht w = (x, dht', w')" by (cases "Read dht w") auto
  from 0 R have "failed x" by (simp add: readResult_def)
  then obtain h t e where x: "x = Done (h, t, Some e)" by (cases x rule: failed.cases) auto
  have "ReadRetryLoop i n r dht w = ReadRetryLoop (i + 1) n (h, t, Some e) dht' w'"
    using 0 R x by (subst ReadRetryLoop.simps) simp
  also have "\<dots> = (Done (h, t, Some e), dht', w')"
    using 0 by (subst ReadRetryLoop.simps) simp
  finally show ?case using R x by (simp add: readResult_def)
next
  case (Suc m)
  obtain x dht' w' where R: "Read dht w = (x, dht', w')" by (cases "Read dht w") auto
  from Suc.prems(1) have "failed (readResult 0 dht w)" by blast
  with R have "failed x" by (simp add: readResult_def)
  then obtain h t e where x: "x = Done (h, t, Some e)" by (cases x rule: failed.cases) auto
  have shift: "readResult j dht' w' = readResult (Suc j) dht w" for j
    using R by (simp add: readResult_def)
  have "ReadRetryLoop (i + 1) n (h, t, Some e) dht' w' =
      (readResult m dht' w', afterReads (Suc m) dht' w')"
  proof (rule Suc.IH)
    show "\<forall>j<Suc m. failed (readResult j dht' w')" using Suc.prems(1) by (auto simp: shift)
    show "i + 1 + int (Suc m) = n" using Suc.prems(2) by simp
  qed
  moreover have "ReadRetryLoop i n r dht w = ReadRetryLoop (i + 1) n (h, t, Some e) dht' w'"
    using Suc.prems(2) R x by (subst ReadRetryLoop.simps) simp
  ultimately show ?case using R by (simp add: shift)
qed


text \<open>
  Claim C9.  For every \<open>maxRetries\<close> of at least 1, ReadRetry makes at most
  \<open>maxRetries\<close> read attempts; when the call number \<open>k + 1\<close> is the first that
  succeeds, ReadRetry returns its result and stops there, having made \<open>k + 1\<close>
  calls; and when all \<open>maxRetries\<close> calls fail, it returns the result of the last
  one, which carries that call's error.
\<close>

theorem ReadRetry_first_success_or_last_error:
  assumes "1 \<le> maxRetries"
  shows "nread (snd (snd (ReadRetry maxRetries dht w))) \<le> nread w + nat maxRetries \<and>
    (\<forall>k. int k < maxRetries \<and> (\<forall>j<k. failed (readResult j dht w)) \<and> succeeded (readResult k dht w)
       \<longrightarrow> ReadRetry maxRetries dht w = (readResult k dht w, afterReads (Suc k) dht w)) \<and>
    ((\<forall>j. int j < maxRetries \<longrightarrow> failed (readResult j dht w))
       \<longrightarrow> failed (readResult (nat maxRetries - 1) dht w) \<and>
           ReadRetry maxRetries dht w =
             (readResult (nat maxRetries - 1) dht w, afterReads (nat maxRetries) dht w))"
proof (intro conjI allI impI)
  show "nread (snd (snd (ReadRetry maxRetries dht w))) \<le> nread w + nat maxRetries"
    using ReadRetryLoop_nread [of 0 maxRetries "(0, 0, None)" dht w] by (simp add: ReadRetry_def)
next
  fix k
  assume "int k < maxRetries \<and> (\<forall>j<k. failed (readResult j dht w)) \<and> succeeded (readResult k dht w)"
  then show "ReadRetry maxRetries dht w = (readResult k dht w, afterReads (Suc k) dht w)"
    unfolding ReadRetry_def by (intro ReadRetryLoop_first_success) auto
next
  assume a: "\<forall>j. int j < maxRetries \<longrightarrow> failed (readResult j dht w)"
  obtain m where m: "nat maxRetries = Suc m" using assms by (cases "nat maxRetries") auto
  then show "failed (readResult (nat maxRetries - 1) dht w)" using a by auto
next
  assume a: "\<forall>j. int j < maxRetries \<longrightarrow> failed (readResult j dht w)"
  obtain m where m: "nat maxRetries = Suc m" using assms by (cases "nat maxRetries") auto
  have "ReadRetryLoop 0 maxRetries (0, 0, None) dht w = (readResult m dht w, afterReads (Suc m) dht w)"
  proof (rule ReadRetryLoop_all_fail)
    show "\<forall>j<Suc m. failed (readResult j dht w)" using a m by auto
    show "0 + int (Suc m) = maxRetries" using m assms by linarith
  qed
  then show "ReadRetry maxRetries dht w =
      (readResult (nat maxRetries - 1) dht w, afterReads (nat maxRetries) dht w)"
    by (simp add: ReadRetry_def m)
qed

theorem ReadRetry_first_success_or_last_error_witness:
  "failed (readResult 0 newGeneric flakyWorld) \<and> failed (readResult 1 newGeneric flakyWorld) \<and>
   succeeded (readResult 2 newGeneric flakyWorld) \<and>
   ReadRetry 5 newGeneric flakyWorld =
     (readResult 2 newGeneric flakyWorld, afterReads (Suc 2) newGeneric flakyWorld) \<and>
   readResult 2 newGeneric flakyWorld = Done (40, 25, None) \<and>
   nread (snd (snd (ReadRetry 5 newGeneric flakyWorld))) \<le> 5 \<and>
   ReadRetry 3 newGeneric silentWorld =
     (readResult 2 newGeneric silentWorld, afterReads 3 newGeneric silentWorld) \<and>
   readResult 2 newGeneric silentWorld = Done (0, 0, Some MissingLowLevel)"
proof -
  have f0: "failed (readResult 0 newGeneric flakyWorld)" by code_simp
  have f1: "failed (readResult 1 newGeneric flakyWorld)" by code_simp
  have s2: "succeeded (readResult 2 newGeneric flakyWorld)" by code_simp
  have r2: "readResult 2 newGeneric flakyWorld = Done (40, 25, None)" by code_simp
  have g0: "failed (readResult 0 newGeneric silentWorld)" by code_simp
  have g1: "failed (readResult 1 newGeneric silentWorld)" by code_simp
  have g2: "readResult 2 newGeneric silentWorld = Done (0, 0, Some MissingLowLevel)"
    by code_simp
  have n0: "nread flakyWorld = 0" by (simp add: flakyWorld_def worldWith_def)
  have fl: "\<forall>j<2. failed (readResult j newGeneric flakyWorld)"
    using f0 f1 by (auto simp: less_2_cases_iff)
  have sl: "\<forall>j. int j < 3 \<longrightarrow> failed (readResult j newGeneric silentWorld)"
  proof (intro allI impI)
    fix j :: nat
    assume "int j < 3"
    then have "j = 0 \<or> j = 1 \<or> j = 2" by auto
    then show "failed (readResult j newGeneric silentWorld)" using g0 g1 g2 by auto
  qed
  have a: "(1::int) \<le> 5" and b: "(1::int) \<le> 3" by simp_all
  note A = ReadRetry_first_success_or_last_error [OF a, of newGeneric flakyWorld]
  note B = ReadRetry_first_success_or_last_error [OF b, of newGeneric silentWorld]
  from A have "int 2 < 5 \<and> (\<forall>j<2. failed (readResult j newGeneric flakyWorld)) \<and>
      succeeded (readResult 2 newGeneric flakyWorld) \<longrightarrow>
      ReadRetry 5 newGeneric flakyWorld =
        (readResult 2 newGeneric flakyWorld, afterReads (Suc 2) newGeneric flakyWorld)"
    by blast
  with fl s2 have "ReadRetry 5 newGeneric flakyWorld =
     (readResult 2 newGeneric flakyWorld, afterReads (Suc 2) newGeneric flakyWorld)"
    by simp
  moreover from A have "nread (snd (snd (ReadRetry 5 newGeneric flakyWorld))) \<le> 5"
    using n0 by simp
  moreover from B sl have "ReadRetry 3 newGeneric silentWorld =
     (readResult (nat 3 - 1) newGeneric silentWorld, afterReads (nat 3) newGeneric silentWorld)"
    by blast
  then have "ReadRetry 3 newGeneric silentWorld =
     (readResult 2 newGeneric silentWorld, afterReads 3 newGeneric silentWorld)"
    by simp
  ultimately show ?thesis using f0 f1 s2 r2 g2 by simp
qed

text \<open>
  Claim C10.  For every \<open>maxRetries\<close> that is zero or negative, ReadRetry makes no
  read attempt (handle and world are returned unchanged) and returns humidity 0,
  temperature 0 and no error.
\<close>

theorem ReadRetry_nonpositive:
  "maxRetries \<le> 0 \<Longrightarrow> ReadRetry maxRetries dht w = (Done (0, 0, None), dht, w)"
  by (simp add: ReadRetry_def ReadRetryLoop.simps)

theorem ReadRetry_nonpositive_witness:
  "ReadRetry 0 newGeneric (goodWorld) =
     (Done (0, 0, None), newGeneric, goodWorld) \<and>
   ReadRetry (- 3) newGeneric (goodWorld) =
     (Done (0, 0, None), newGeneric, goodWorld)"
  using ReadRetry_nonpositive [of 0 newGeneric "goodWorld"]
    ReadRetry_nonpositive [of "- 3" newGeneric "goodWorld"]
  by simp

section \<open>ReadBackground with the stop channel closed at the start\<close>














end
